theory Spec2Isabelle
  imports Main "HOL-Library.Product_Lexorder" "HOL-Library.List_Lexorder" "HOL-Library.Multiset"
begin

section \<open>Python values\<close>

text \<open>
  A Python \<open>str\<close> is a sequence of Unicode code points, so it is modelled as a list of
  natural numbers: \<open>len\<close> counts code points and comparison is lexicographic by code
  point. \<open>ascii\<close> turns an Isabelle string literal into that form.
\<close>

type_synonym pystr = "nat list"

definition ascii :: "string \<Rightarrow> pystr" where
  "ascii s = map of_char s"

text \<open>
  A float is \<open>nan\<close>, an infinity, or a finite binary64 number. A finite float is kept
  by the digits of its \<open>repr\<close>: sign, the digits \<open>m\<close> of the shortest decimal that reads
  back as this float (without trailing zeros), and the decimal exponent \<open>e\<close>, so that the
  float is the binary64 nearest to \<open>\<plusminus> m * 10 ^ e\<close>; zero is \<open>m = 0\<close>, \<open>e = 0\<close>. Two decimals
  that round to the same binary64 therefore give the same value here.
\<close>

datatype pyfloat = Fin bool nat int | PInf | NInf | NaN

text \<open>The values a cell of the sheet may hold: blank, an integer, a float, or text.\<close>

datatype cell = CNone | CInt int | CFloat pyfloat | CStr pystr

datatype py_error = ValueError string | OverflowError | IndexError

section \<open>The string methods the normalizer uses\<close>

text \<open>\<open>str.isspace\<close> of one code point (Unicode 14, the table of CPython 3.11).\<close>

definition space_points :: "nat list" where
  "space_points = [0x9, 0xA, 0xB, 0xC, 0xD, 0x1C, 0x1D, 0x1E, 0x1F, 0x20, 0x85, 0xA0,
     0x1680, 0x2000, 0x2001, 0x2002, 0x2003, 0x2004, 0x2005, 0x2006, 0x2007, 0x2008, 0x2009,
     0x200A, 0x2028, 0x2029, 0x202F, 0x205F, 0x3000]"

definition isspace :: "nat \<Rightarrow> bool" where
  "isspace c \<longleftrightarrow> c \<in> set space_points"

text \<open>\<open>s.strip()\<close>: leading and trailing whitespace removed.\<close>

definition py_strip :: "pystr \<Rightarrow> pystr" where
  "py_strip s = rev (dropWhile isspace (rev (dropWhile isspace s)))"

text \<open>
  \<open>s.lower()\<close>. The ASCII letters are mapped exactly, and so are the only two code points
  outside ASCII whose lower case begins with an ASCII letter (U+0130 and the Kelvin sign
  U+212A). Every other code point outside ASCII is left as it is, where Unicode may map it
  to other code points outside ASCII: the normalizer only compares lowered text with ASCII
  words, which cannot tell the two apart.
\<close>

definition lower_cp :: "nat \<Rightarrow> nat list" where
  "lower_cp c = (if 65 \<le> c \<and> c \<le> 90 then [c + 32]
                 else if c = 0x130 then [0x69, 0x307]
                 else if c = 0x212A then [0x6B]
                 else [c])"

definition py_lower :: "pystr \<Rightarrow> pystr" where
  "py_lower s = concat (map lower_cp s)"

text \<open>\<open>s.startswith(p)\<close> and \<open>s.replace(c, '')\<close> for a single character \<open>c\<close>.\<close>

definition startswith :: "pystr \<Rightarrow> pystr \<Rightarrow> bool" where
  "startswith s p \<longleftrightarrow> take (length p) s = p"

definition remove_char :: "nat \<Rightarrow> pystr \<Rightarrow> pystr" where
  "remove_char c s = filter (\<lambda>x. x \<noteq> c) s"

text \<open>
  The decimal digits of Unicode 14 (general category Nd) come in runs of ten, \<open>0\<close> to \<open>9\<close>;
  \<open>decimal_starts\<close> lists the code point of each zero.
\<close>

definition decimal_starts :: "nat list" where
  "decimal_starts = [0x30, 0x660, 0x6F0, 0x7C0, 0x966, 0x9E6, 0xA66, 0xAE6, 0xB66, 0xBE6,
     0xC66, 0xCE6, 0xD66, 0xDE6, 0xE50, 0xED0, 0xF20, 0x1040, 0x1090, 0x17E0, 0x1810, 0x1946,
     0x19D0, 0x1A80, 0x1A90, 0x1B50, 0x1BB0, 0x1C40, 0x1C50, 0xA620, 0xA8D0, 0xA900, 0xA9D0,
     0xA9F0, 0xAA50, 0xABF0, 0xFF10, 0x104A0, 0x10D30, 0x11066, 0x110F0, 0x11136, 0x111D0,
     0x112F0, 0x11450, 0x114D0, 0x11650, 0x116C0, 0x11730, 0x118E0, 0x11950, 0x11C50, 0x11D50,
     0x11DA0, 0x16A60, 0x16AC0, 0x16B50, 0x1D7CE, 0x1D7D8, 0x1D7E2, 0x1D7EC, 0x1D7F6, 0x1E140,
     0x1E2F0, 0x1E950, 0x1FBF0]"

definition decimal_value :: "nat \<Rightarrow> nat option" where
  "decimal_value c = (case filter (\<lambda>z. z \<le> c \<and> c < z + 10) decimal_starts of
                        [] \<Rightarrow> None | z # _ \<Rightarrow> Some (c - z))"

text \<open>
  The code points that are digits for \<open>str.isdigit\<close> without being decimal digits
  (superscripts, subscripts, circled digits and the like), as inclusive ranges.
\<close>

definition other_digit_ranges :: "(nat \<times> nat) list" where
  "other_digit_ranges = [(0xB2, 0xB3), (0xB9, 0xB9), (0x1369, 0x1371), (0x19DA, 0x19DA),
     (0x2070, 0x2070), (0x2074, 0x2079), (0x2080, 0x2089), (0x2460, 0x2468), (0x2474, 0x247C),
     (0x2488, 0x2490), (0x24EA, 0x24EA), (0x24F5, 0x24FD), (0x24FF, 0x24FF), (0x2776, 0x277E),
     (0x2780, 0x2788), (0x278A, 0x2792), (0x10A40, 0x10A43), (0x10E60, 0x10E68),
     (0x11052, 0x1105A), (0x1F100, 0x1F10A)]"

definition isdigit_cp :: "nat \<Rightarrow> bool" where
  "isdigit_cp c \<longleftrightarrow> decimal_value c \<noteq> None \<or> list_ex (\<lambda>(lo, hi). lo \<le> c \<and> c \<le> hi) other_digit_ranges"

text \<open>\<open>s.isdigit()\<close>: at least one character, and all of them digits.\<close>

definition py_isdigit :: "pystr \<Rightarrow> bool" where
  "py_isdigit s \<longleftrightarrow> s \<noteq> [] \<and> list_all isdigit_cp s"

section \<open>Conversions between text and numbers\<close>

text \<open>The decimal digits of a natural number, as ASCII code points, and back.\<close>

function digits_of :: "nat \<Rightarrow> pystr" where
  "digits_of n = (if n < 10 then [48 + n] else digits_of (n div 10) @ [48 + n mod 10])"
  by pat_completeness auto
termination
  by (relation "measure id") auto

declare digits_of.simps [simp del]

definition digits_val :: "pystr \<Rightarrow> nat" where
  "digits_val ds = foldl (\<lambda>a c. 10 * a + (c - 48)) 0 ds"

definition is_ascii_digit :: "nat \<Rightarrow> bool" where
  "is_ascii_digit c \<longleftrightarrow> 48 \<le> c \<and> c \<le> 57"

text \<open>
  What \<open>int\<close> and \<open>float\<close> do first with a \<open>str\<close>: a code point below 127 stays, a space
  outside ASCII becomes a blank, a decimal digit becomes its ASCII digit, and at the first
  other code point the text is cut and ends in a question mark.
\<close>

fun to_ascii :: "pystr \<Rightarrow> pystr" where
  "to_ascii [] = []"
| "to_ascii (c # cs) =
     (if c < 127 then c # to_ascii cs
      else if isspace c then 32 # to_ascii cs
      else (case decimal_value c of None \<Rightarrow> [63] | Some d \<Rightarrow> (48 + d) # to_ascii cs))"

text \<open>The whitespace of C's \<open>Py_ISSPACE\<close>, which the two parsers skip at both ends.\<close>

definition c_isspace :: "nat \<Rightarrow> bool" where
  "c_isspace c \<longleftrightarrow> c = 32 \<or> (9 \<le> c \<and> c \<le> 13)"

definition c_strip :: "pystr \<Rightarrow> pystr" where
  "c_strip s = rev (dropWhile c_isspace (rev (dropWhile c_isspace s)))"

text \<open>
  An underscore is allowed between two digits only. \<open>underscores_ok prev s\<close> walks the
  text with the previous character at hand (\<open>0\<close> at the start).
\<close>

fun underscores_ok :: "nat \<Rightarrow> pystr \<Rightarrow> bool" where
  "underscores_ok prev [] = (prev \<noteq> 95)"
| "underscores_ok prev (c # cs) =
     (if c = 95 then is_ascii_digit prev \<and> underscores_ok c cs
      else (prev = 95 \<longrightarrow> is_ascii_digit c) \<and> underscores_ok c cs)"

text \<open>An optional sign in front: whether it is a minus, and the rest.\<close>

definition split_sign :: "pystr \<Rightarrow> bool \<times> pystr" where
  "split_sign s = (case s of [] \<Rightarrow> (False, [])
                   | c # r \<Rightarrow> if c = 45 then (True, r) else if c = 43 then (False, r) else (False, s))"

definition invalid_int :: "py_error" where
  "invalid_int = ValueError ''invalid literal for int() with base 10''"

text \<open>\<open>int(s)\<close> for a \<open>str\<close>, base 10.\<close>

definition py_int :: "pystr \<Rightarrow> py_error + int" where
  "py_int s =
     (let t = c_strip (to_ascii s);
          (neg, u) = split_sign t;
          ds = remove_char 95 u
      in if ds \<noteq> [] \<and> list_all is_ascii_digit ds \<and> underscores_ok 0 u
         then Inr (if neg then - int (digits_val ds) else int (digits_val ds))
         else Inl invalid_int)"

text \<open>
  Rounding to binary64. \<open>bit_length\<close> is the number of bits of a natural number, and
  \<open>round_half_even a b\<close> the integer nearest to \<open>a / b\<close>, the even one at a tie.
\<close>

function bit_length :: "nat \<Rightarrow> nat" where
  "bit_length n = (if n = 0 then 0 else 1 + bit_length (n div 2))"
  by pat_completeness auto
termination
  by (relation "measure id") auto

declare bit_length.simps [simp del]

definition round_half_even :: "nat \<Rightarrow> nat \<Rightarrow> nat" where
  "round_half_even a b =
     (let q = a div b; r = a mod b
      in if b < 2 * r \<or> (2 * r = b \<and> odd q) then q + 1 else q)"

text \<open>
  The binary64 nearest to the fraction \<open>N / D\<close> (with \<open>0 < D\<close>, and \<open>N / D\<close> below the overflow
  limit), as the pair \<open>(M, E)\<close> of the float \<open>M * 2 ^ E\<close>: \<open>2 ^ k\<close> is the power of two at or
  below \<open>N / D\<close>, the float keeps 53 bits from there, or what lies above \<open>2 ^ - 1074\<close> for a
  subnormal, and a mantissa rounded up to \<open>2 ^ 53\<close> moves to the next exponent. The pair is
  unique for each float other than zero.
\<close>

definition binary_exponent :: "nat \<Rightarrow> nat \<Rightarrow> int" where
  "binary_exponent N D =
     (let k0 = int (bit_length N) - int (bit_length D)
      in if D * 2 ^ nat k0 \<le> N * 2 ^ nat (- k0) then k0 else k0 - 1)"

definition to_binary64 :: "nat \<Rightarrow> nat \<Rightarrow> nat \<times> int" where
  "to_binary64 N D =
     (let E = max (binary_exponent N D - 52) (- 1074);
          M = round_half_even (N * 2 ^ nat (- E)) (D * 2 ^ nat E)
      in if M = 2 ^ 53 then (2 ^ 52, E + 1) else (M, E))"

text \<open>Whether the decimal \<open>c * 10 ^ s\<close> is read as the float \<open>f\<close>.\<close>

definition reads_as :: "nat \<Rightarrow> int \<Rightarrow> nat \<times> int \<Rightarrow> bool" where
  "reads_as c s f \<longleftrightarrow> to_binary64 (c * 10 ^ nat s) (10 ^ nat (- s)) = f"

text \<open>
  The digits of \<open>repr\<close>: the shortest decimal that reads back as the float, and the one
  nearest to the float among those of that length. For the float \<open>f\<close> of value \<open>A / B\<close>,
  \<open>candidate\<close> looks at the two neighbours \<open>lo\<close> and \<open>lo + 1\<close> of \<open>A / B\<close> among the multiples
  of \<open>10 ^ s\<close>, and takes the nearer one when both read back as \<open>f\<close>;
  \<open>shortest_digits\<close> starts with one digit and takes one more until a candidate reads back
  as \<open>f\<close>, and 17 digits, rounded, always do. \<open>strip_zeros\<close> moves the trailing zeros of the
  digits into the exponent.
\<close>

function strip_zeros :: "bool \<Rightarrow> nat \<Rightarrow> int \<Rightarrow> pyfloat" where
  "strip_zeros neg m e = (if m = 0 then Fin neg 0 0
                          else if m mod 10 = 0 then strip_zeros neg (m div 10) (e + 1)
                          else Fin neg m e)"
  by pat_completeness auto
termination
  by (relation "measure (\<lambda>(neg, m, e). m)") auto

declare strip_zeros.simps [simp del]

definition pick :: "nat \<times> int \<Rightarrow> int \<Rightarrow> nat \<Rightarrow> nat \<Rightarrow> nat option" where
  "pick f s lo nearest =
     (if reads_as lo s f \<and> reads_as (lo + 1) s f then Some nearest
      else if reads_as lo s f then Some lo
      else if reads_as (lo + 1) s f then Some (lo + 1)
      else None)"

definition candidate :: "nat \<times> int \<Rightarrow> nat \<Rightarrow> nat \<Rightarrow> int \<Rightarrow> nat option" where
  "candidate f A B s =
     pick f s ((A * 10 ^ nat (- s)) div (B * 10 ^ nat s))
       (round_half_even (A * 10 ^ nat (- s)) (B * 10 ^ nat s))"

function shortest_digits :: "bool \<Rightarrow> nat \<times> int \<Rightarrow> nat \<Rightarrow> nat \<Rightarrow> int \<Rightarrow> nat \<Rightarrow> pyfloat" where
  "shortest_digits neg f A B s n =
     (if 17 \<le> n then strip_zeros neg (round_half_even (A * 10 ^ nat (- s)) (B * 10 ^ nat s)) s
      else (case candidate f A B s of
              Some c \<Rightarrow> strip_zeros neg c s
            | None \<Rightarrow> shortest_digits neg f A B (s - 1) (n + 1)))"
  by pat_completeness auto
termination
  by (relation "measure (\<lambda>(neg, f, A, B, s, n). 17 - n)") auto

declare shortest_digits.simps [simp del]

text \<open>The power of ten at or below \<open>A / B\<close>, where the one-digit candidates stand.\<close>

definition decimal_exponent :: "nat \<Rightarrow> nat \<Rightarrow> int" where
  "decimal_exponent A B =
     (let t0 = int (length (digits_of A)) - int (length (digits_of B))
      in if B * 10 ^ nat t0 \<le> A * 10 ^ nat (- t0) then t0 else t0 - 1)"

text \<open>The float \<open>\<plusminus> M * 2 ^ E\<close>, kept by the digits of its \<open>repr\<close>.\<close>

fun float_of_binary :: "bool \<Rightarrow> nat \<times> int \<Rightarrow> pyfloat" where
  "float_of_binary neg (M, E) =
     (if M = 0 then Fin neg 0 0
      else shortest_digits neg (M, E) (M * 2 ^ nat E) (2 ^ nat (- E))
             (decimal_exponent (M * 2 ^ nat E) (2 ^ nat (- E))) 1)"

text \<open>
  The decimal \<open>\<plusminus> m * 10 ^ e\<close> as a float, which is what \<open>float\<close> makes of a numeric text or
  of an integer: infinite from \<open>2 ^ 1024 - 2 ^ 970\<close> on (half way between the largest float
  and \<open>2 ^ 1024\<close>), and below that the nearest binary64.
\<close>

definition overflows :: "nat \<Rightarrow> int \<Rightarrow> bool" where
  "overflows m e \<longleftrightarrow> (if 0 \<le> e then 2 ^ 1024 - 2 ^ 970 \<le> int m * 10 ^ nat e
                      else (2 ^ 1024 - 2 ^ 970) * 10 ^ nat (- e) \<le> int m)"

definition float_of_decimal :: "bool \<Rightarrow> nat \<Rightarrow> int \<Rightarrow> pyfloat" where
  "float_of_decimal neg m e =
     (if overflows m e then (if neg then NInf else PInf)
      else float_of_binary neg (to_binary64 (m * 10 ^ nat e) (10 ^ nat (- e))))"

text \<open>\<open>float(n)\<close> for an \<open>int\<close>: too large an integer raises.\<close>

definition float_of_int :: "int \<Rightarrow> py_error + pyfloat" where
  "float_of_int n = (if overflows (nat \<bar>n\<bar>) 0 then Inl OverflowError
                     else Inr (float_of_decimal (n < 0) (nat \<bar>n\<bar>) 0))"

text \<open>
  The unsigned part of a float literal: digits with an optional point and an optional
  exponent, at least one digit in the mantissa, and nothing left over. The result is the
  mantissa's digits and the decimal exponent.
\<close>

definition parse_number :: "pystr \<Rightarrow> (nat \<times> int) option" where
  "parse_number u =
     (let ip = takeWhile is_ascii_digit u;
          r1 = dropWhile is_ascii_digit u;
          (fp, r2) = (case r1 of [] \<Rightarrow> ([], [])
                      | c # r \<Rightarrow> if c = 46 then (takeWhile is_ascii_digit r, dropWhile is_ascii_digit r)
                                else ([], r1))
      in if ip = [] \<and> fp = [] then None
         else (case r2 of
                 [] \<Rightarrow> Some (digits_val (ip @ fp), - int (length fp))
               | c # r \<Rightarrow>
                   if c = 101 \<or> c = 69 then
                     (case split_sign r of (xneg, xs) \<Rightarrow>
                        if xs \<noteq> [] \<and> list_all is_ascii_digit xs
                        then Some (digits_val (ip @ fp),
                                   (if xneg then - int (digits_val xs) else int (digits_val xs))
                                     - int (length fp))
                        else None)
                   else None))"

definition invalid_float :: "py_error" where
  "invalid_float = ValueError ''could not convert string to float''"

text \<open>\<open>float(s)\<close> for a \<open>str\<close>.\<close>

definition py_float :: "pystr \<Rightarrow> py_error + pyfloat" where
  "py_float s =
     (let t = c_strip (to_ascii s) in
      if t = [] \<or> \<not> underscores_ok 0 t then Inl invalid_float
      else (case split_sign (remove_char 95 t) of (neg, u) \<Rightarrow>
        let w = py_lower u in
        if w = ascii ''inf'' \<or> w = ascii ''infinity'' then Inr (if neg then NInf else PInf)
        else if w = ascii ''nan'' then Inr NaN
        else (case parse_number u of
                None \<Rightarrow> Inl invalid_float
              | Some (m, e) \<Rightarrow> Inr (float_of_decimal neg m e))))"

text \<open>\<open>repr\<close> of a float, which is also its \<open>str\<close>.\<close>

definition float_repr :: "pyfloat \<Rightarrow> pystr" where
  "float_repr f =
     (case f of
        NaN \<Rightarrow> ascii ''nan''
      | PInf \<Rightarrow> ascii ''inf''
      | NInf \<Rightarrow> ascii ''-inf''
      | Fin neg m e \<Rightarrow>
          (let ds = digits_of m;
               n = int (length ds);
               decpt = n + e;
               body =
                 (if - 4 < decpt \<and> decpt \<le> 16 then
                    (if decpt \<le> 0 then ascii ''0.'' @ replicate (nat (- decpt)) 48 @ ds
                     else if n \<le> decpt then ds @ replicate (nat (decpt - n)) 48 @ ascii ''.0''
                     else take (nat decpt) ds @ [46] @ drop (nat decpt) ds)
                  else
                    (let x = decpt - 1; xs = digits_of (nat \<bar>x\<bar>)
                     in take 1 ds @ (if 1 < n then 46 # drop 1 ds else [])
                          @ [101, if x < 0 then 45 else 43]
                          @ (if length xs < 2 then 48 # xs else xs)))
           in (if neg then [45] else []) @ body))"

text \<open>\<open>str(v)\<close> of a cell value.\<close>

definition py_str :: "cell \<Rightarrow> pystr" where
  "py_str v = (case v of
                 CNone \<Rightarrow> ascii ''None''
               | CInt n \<Rightarrow> (if n < 0 then 45 # digits_of (nat (- n)) else digits_of (nat n))
               | CFloat f \<Rightarrow> float_repr f
               | CStr s \<Rightarrow> s)"

section \<open>The value cleaner and the period token recognizer\<close>

text \<open>
  \<open>clean_percentage_like\<close>: \<open>None\<close> stays \<open>None\<close>, a number becomes a float unless it is
  \<open>nan\<close>, and text is trimmed, freed of every percent sign and comma, trimmed again and
  parsed, a \<open>ValueError\<close> of the parse giving \<open>None\<close>.
\<close>

definition clean_percentage_like :: "cell \<Rightarrow> py_error + pyfloat option" where
  "clean_percentage_like v =
     (case v of
        CNone \<Rightarrow> Inr None
      | CInt n \<Rightarrow> (case float_of_int n of Inl e \<Rightarrow> Inl e | Inr f \<Rightarrow> Inr (Some f))
      | CFloat f \<Rightarrow> (if f = NaN then Inr None else Inr (Some f))
      | CStr x \<Rightarrow>
          (let s = py_strip (py_str v) in
           if s = [] \<or> py_lower s = ascii ''nan'' then Inr None
           else (let s' = py_strip (remove_char 44 (remove_char 37 s)) in
                 case py_float s' of
                   Inl (ValueError msg) \<Rightarrow> Inr None
                 | Inl e \<Rightarrow> Inl e
                 | Inr f \<Rightarrow> Inr (Some f))))"

text \<open>
  \<open>is_year_str\<close>: the trimmed text is a year when it has four characters, all digits for
  \<open>str.isdigit\<close>, and its \<open>int\<close> lies between 1900 and 2100. The \<open>int\<close> call may raise.
\<close>

definition is_year_str :: "pystr \<Rightarrow> py_error + int option" where
  "is_year_str s0 =
     (let s = py_strip s0 in
      if length s = 4 \<and> py_isdigit s then
        (case py_int s of
           Inl e \<Rightarrow> Inl e
         | Inr y \<Rightarrow> if 1900 \<le> y \<and> y \<le> 2100 then Inr (Some y) else Inr None)
      else Inr None)"

section \<open>The grid\<close>

text \<open>
  The sheet as pandas holds it: a list of rows of cells. A data frame is rectangular
  (\<open>rectangular\<close>); \<open>n_rows\<close> and \<open>n_cols\<close> are its \<open>shape\<close>, and \<open>iat\<close> reads one cell,
  raising \<open>IndexError\<close> outside the frame.
\<close>

type_synonym grid = "cell list list"

definition n_rows :: "grid \<Rightarrow> nat" where
  "n_rows df = length df"

definition n_cols :: "grid \<Rightarrow> nat" where
  "n_cols df = (case df of [] \<Rightarrow> 0 | r # _ \<Rightarrow> length r)"

definition rectangular :: "grid \<Rightarrow> bool" where
  "rectangular df \<longleftrightarrow> list_all (\<lambda>r. length r = n_cols df) df"

definition iat :: "grid \<Rightarrow> nat \<Rightarrow> nat \<Rightarrow> py_error + cell" where
  "iat df i j = (if i < length df \<and> j < length (df ! i) then Inr (df ! i ! j) else Inl IndexError)"

text \<open>
  \<open>dropna(how='all')\<close> on rows and then on columns: a row or column whose cells are all
  missing (\<open>None\<close> or \<open>nan\<close>) is dropped.
\<close>

definition isna :: "cell \<Rightarrow> bool" where
  "isna v \<longleftrightarrow> v = CNone \<or> v = CFloat NaN"

definition dropna_rows :: "grid \<Rightarrow> grid" where
  "dropna_rows df = filter (\<lambda>r. \<not> list_all isna r) df"

definition dropna_cols :: "grid \<Rightarrow> grid" where
  "dropna_cols df =
     (let keep = filter (\<lambda>j. \<not> list_all (\<lambda>r. isna (r ! j)) df) [0..<n_cols df]
      in map (\<lambda>r. map (\<lambda>j. r ! j) keep) df)"

section \<open>The header block detector\<close>

text \<open>
  A \<open>year_map\<close> is the Python dict from a year to its pair \<open>(total_col, citizen_col)\<close>, kept
  as an association list in insertion order: assigning to a key that is present replaces
  its value in place, a new key goes to the end.
\<close>

type_synonym year_map = "(int \<times> (nat option \<times> nat option)) list"

fun dict_set :: "year_map \<Rightarrow> int \<Rightarrow> (nat option \<times> nat option) \<Rightarrow> year_map" where
  "dict_set [] k v = [(k, v)]"
| "dict_set ((k', v') # m) k v = (if k' = k then (k, v) # m else (k', v') # dict_set m k v)"

text \<open>
  The inner loop over the columns \<open>j\<close> of row \<open>i\<close>: the pairs \<open>(j, y)\<close> of the cells
  that are year tokens, in column order.
\<close>

fun scan_years :: "grid \<Rightarrow> nat \<Rightarrow> nat list \<Rightarrow> py_error + (nat \<times> int) list" where
  "scan_years df i [] = Inr []"
| "scan_years df i (j # js) =
     (case iat df i j of
        Inl e \<Rightarrow> Inl e
      | Inr v \<Rightarrow>
          (case is_year_str (py_strip (py_str v)) of
             Inl e \<Rightarrow> Inl e
           | Inr yo \<Rightarrow>
               (case scan_years df i js of
                  Inl e \<Rightarrow> Inl e
                | Inr rest \<Rightarrow> Inr (case yo of None \<Rightarrow> rest | Some y \<Rightarrow> (j, y) # rest))))"

text \<open>The lowered, trimmed text of a sub-header cell, empty outside the columns.\<close>

definition sub_label :: "grid \<Rightarrow> nat \<Rightarrow> nat \<Rightarrow> py_error + pystr" where
  "sub_label df sub_r j =
     (if j < n_cols df then
        (case iat df sub_r j of
           Inl e \<Rightarrow> Inl e
         | Inr v \<Rightarrow> Inr (py_lower (py_strip (py_str v))))
      else Inr [])"

text \<open>The columns of one year, from the sub-header texts at \<open>j\<close> and \<open>j + 1\<close>.\<close>

definition year_cols :: "pystr \<Rightarrow> pystr \<Rightarrow> nat \<Rightarrow> nat option \<times> nat option" where
  "year_cols sub_j sub_j1 j =
     (let total_idx = (if startswith sub_j (ascii ''total'') then Some j else None);
          citizen_idx = (if startswith sub_j (ascii ''citizen'') then Some j else None);
          total_idx = (if startswith sub_j1 (ascii ''total'')
                       then (if total_idx = None then Some (j + 1) else total_idx)
                       else total_idx);
          citizen_idx = (if startswith sub_j1 (ascii ''citizen'')
                         then (if citizen_idx = None then Some (j + 1) else citizen_idx)
                         else citizen_idx)
      in (total_idx, citizen_idx))"

text \<open>The loop over \<open>years_in_row\<close> that fills \<open>year_map\<close>.\<close>

fun build_year_map :: "grid \<Rightarrow> nat \<Rightarrow> (nat \<times> int) list \<Rightarrow> year_map \<Rightarrow> py_error + year_map" where
  "build_year_map df sub_r [] ym = Inr ym"
| "build_year_map df sub_r ((j, y) # rest) ym =
     (case sub_label df sub_r j of
        Inl e \<Rightarrow> Inl e
      | Inr sub_j \<Rightarrow>
          (case sub_label df sub_r (j + 1) of
             Inl e \<Rightarrow> Inl e
           | Inr sub_j1 \<Rightarrow> build_year_map df sub_r rest (dict_set ym y (year_cols sub_j sub_j1 j))))"

text \<open>
  The \<open>while i < n_rows - 1\<close> loop, with the cursor \<open>i\<close> and the blocks found so far.
  (\<open>n_rows - 1\<close> is cut off at zero on \<open>nat\<close>, where Python has \<open>- 1\<close>: the test fails
  in both for an empty frame.)
\<close>

function find_loop :: "grid \<Rightarrow> nat \<Rightarrow> (nat \<times> year_map) list \<Rightarrow> py_error + (nat \<times> year_map) list" where
  "find_loop df i blocks =
     (if i < n_rows df - 1 then
        (case scan_years df i [1..<n_cols df] of
           Inl e \<Rightarrow> Inl e
         | Inr years_in_row \<Rightarrow>
             if 3 \<le> length years_in_row then
               (if i + 1 < n_rows df then
                  (case build_year_map df (i + 1) years_in_row [] of
                     Inl e \<Rightarrow> Inl e
                   | Inr year_map \<Rightarrow>
                       if year_map \<noteq> [] then find_loop df (i + 1 + 1) (blocks @ [(i, year_map)])
                       else find_loop df (i + 1) blocks)
                else find_loop df (i + 1) blocks)
             else find_loop df (i + 1) blocks)
      else Inr blocks)"
  by pat_completeness auto
termination
  by (relation "measure (\<lambda>(df, i, blocks). n_rows df - i)") auto

declare find_loop.simps [simp del]

definition find_header_blocks :: "grid \<Rightarrow> py_error + (nat \<times> year_map) list" where
  "find_header_blocks df = find_loop df 0 []"

section \<open>The row extractor\<close>

record turnout_record =
  year :: int
  state :: pystr
  turnout :: pyfloat

text \<open>The boundary check: how many cells of row \<open>r\<close>, over the columns \<open>js\<close>, are year tokens.\<close>

fun years_here :: "grid \<Rightarrow> nat \<Rightarrow> nat list \<Rightarrow> py_error + nat" where
  "years_here df r [] = Inr 0"
| "years_here df r (j # js) =
     (case iat df r j of
        Inl e \<Rightarrow> Inl e
      | Inr v \<Rightarrow>
          (case is_year_str (py_str v) of
             Inl e \<Rightarrow> Inl e
           | Inr yo \<Rightarrow>
               (case years_here df r js of
                  Inl e \<Rightarrow> Inl e
                | Inr k \<Rightarrow> Inr (if yo \<noteq> None then k + 1 else k))))"

text \<open>The subject label of a row, from its cell in column 0.\<close>

definition state_of :: "cell \<Rightarrow> pystr" where
  "state_of state_raw = (if state_raw \<noteq> CNone then py_strip (py_str state_raw) else [])"

text \<open>The two tests that skip a row.\<close>

definition is_separator :: "pystr \<Rightarrow> bool" where
  "is_separator st \<longleftrightarrow> st = [] \<or> startswith (py_lower st) (ascii ''table'') \<or> py_lower st = ascii ''nan''"

definition is_aggregate :: "pystr \<Rightarrow> bool" where
  "is_aggregate st \<longleftrightarrow> py_lower st = ascii ''united states''"

text \<open>
  The loop over \<open>year_map.items()\<close> for one data row: the citizen column if there is one,
  else the total column; no record without a column inside the frame or without a value.
\<close>

fun emit_years :: "grid \<Rightarrow> nat \<Rightarrow> pystr \<Rightarrow> year_map \<Rightarrow> py_error + turnout_record list" where
  "emit_years df r st [] = Inr []"
| "emit_years df r st ((y, (total_idx, citizen_idx)) # rest) =
     (let col_idx = (if citizen_idx \<noteq> None then citizen_idx else total_idx) in
      case col_idx of
        None \<Rightarrow> emit_years df r st rest
      | Some c \<Rightarrow>
          if n_cols df \<le> c then emit_years df r st rest
          else (case iat df r c of
                  Inl e \<Rightarrow> Inl e
                | Inr v \<Rightarrow>
                    (case clean_percentage_like v of
                       Inl e \<Rightarrow> Inl e
                     | Inr None \<Rightarrow> emit_years df r st rest
                     | Inr (Some t) \<Rightarrow>
                         (case emit_years df r st rest of
                            Inl e \<Rightarrow> Inl e
                          | Inr recs \<Rightarrow> Inr (\<lparr>year = y, state = st, turnout = t\<rparr> # recs)))))"

text \<open>The \<open>while r < n_rows\<close> loop of \<open>parse_block\<close>, with the records so far.\<close>

function parse_loop :: "grid \<Rightarrow> year_map \<Rightarrow> nat \<Rightarrow> turnout_record list \<Rightarrow> py_error + turnout_record list" where
  "parse_loop df ym r records =
     (if r < n_rows df then
        (case years_here df r [1..<n_cols df] of
           Inl e \<Rightarrow> Inl e
         | Inr k \<Rightarrow>
             if 3 \<le> k then Inr records
             else (case iat df r 0 of
                     Inl e \<Rightarrow> Inl e
                   | Inr state_raw \<Rightarrow>
                       (let st = state_of state_raw in
                        if is_separator st then parse_loop df ym (r + 1) records
                        else if is_aggregate st then parse_loop df ym (r + 1) records
                        else (case emit_years df r st ym of
                                Inl e \<Rightarrow> Inl e
                              | Inr recs \<Rightarrow> parse_loop df ym (r + 1) (records @ recs)))))
      else Inr records)"
  by pat_completeness auto
termination
  by (relation "measure (\<lambda>(df, ym, r, records). n_rows df - r)") auto

declare parse_loop.simps [simp del]

definition parse_block :: "grid \<Rightarrow> nat \<Rightarrow> year_map \<Rightarrow> py_error + turnout_record list" where
  "parse_block df header_row ym = parse_loop df ym (header_row + 2) []"

section \<open>The engine\<close>

text \<open>
  The loop of \<open>normalize_a5a\<close> over the blocks, \<open>all_records.extend(parse_block(...))\<close>,
  with the extractor as a parameter \<open>pb\<close>.
\<close>

fun extend_all :: "(grid \<Rightarrow> nat \<Rightarrow> year_map \<Rightarrow> py_error + turnout_record list) \<Rightarrow> grid \<Rightarrow>
    (nat \<times> year_map) list \<Rightarrow> turnout_record list \<Rightarrow> py_error + turnout_record list" where
  "extend_all pb df [] all_records = Inr all_records"
| "extend_all pb df ((header_row, ym) # blocks) all_records =
     (case pb df header_row ym of
        Inl e \<Rightarrow> Inl e
      | Inr block_recs \<Rightarrow> extend_all pb df blocks (all_records @ block_recs))"

text \<open>
  \<open>list.sort(key=lambda r: (r['year'], r['state']))\<close>: a stable sort on the pair, the
  year as an integer and the state by code points.
\<close>

definition sort_key_of :: "turnout_record \<Rightarrow> int \<times> pystr" where
  "sort_key_of r = (year r, state r)"

definition sort_records :: "turnout_record list \<Rightarrow> turnout_record list" where
  "sort_records rs = sort_key sort_key_of rs"

definition no_blocks :: "py_error" where
  "no_blocks = ValueError ''Could not detect any header blocks in a5a.xlsx''"

text \<open>
  \<open>normalize_a5a\<close> from the frame that \<open>read_excel\<close> returns; \<open>normalize_with\<close> is its body
  with the extractor as a parameter.
\<close>

definition normalize_with :: "(grid \<Rightarrow> nat \<Rightarrow> year_map \<Rightarrow> py_error + turnout_record list) \<Rightarrow>
    grid \<Rightarrow> py_error + turnout_record list" where
  "normalize_with pb sheet =
     (let df = dropna_cols (dropna_rows sheet) in
      case find_header_blocks df of
        Inl e \<Rightarrow> Inl e
      | Inr blocks \<Rightarrow>
          if blocks = [] then Inl no_blocks
          else (case extend_all pb df blocks [] of
                  Inl e \<Rightarrow> Inl e
                | Inr all_records \<Rightarrow> Inr (sort_records all_records)))"

definition normalize_a5a :: "grid \<Rightarrow> py_error + turnout_record list" where
  "normalize_a5a sheet = normalize_with parse_block sheet"

text \<open>
  The merge of \<open>main\<close> in \<open>normalize_turnout.py\<close>: the records of the input files, one list
  per file in the order they are read, are appended and sorted by the same key.
\<close>

definition merge_files :: "turnout_record list list \<Rightarrow> turnout_record list" where
  "merge_files per_file = sort_records (concat per_file)"

section \<open>Example sheets\<close>

text \<open>
  Two stacked blocks of three years each, with one state row and the national row under
  the first block and one state row under the second.
\<close>

definition two_blocks :: grid where
  "two_blocks =
     [[CStr [], CInt 2020, CInt 2016, CInt 2012],
      [CFloat NaN, CStr (ascii ''Total''), CStr (ascii ''Citizen, VEP''), CStr (ascii ''Total'')],
      [CStr (ascii ''Alabama''), CStr (ascii ''63.6%''), CFloat (Fin False 591 (- 1)), CInt 50],
      [CStr (ascii ''United States''), CStr (ascii ''66.8%''), CFloat (Fin False 613 (- 1)), CInt 58],
      [CFloat NaN, CInt 2008, CInt 2004, CInt 2000],
      [CFloat NaN, CStr (ascii ''Total''), CStr (ascii ''Citizen''), CStr (ascii ''Total'')],
      [CStr (ascii ''Alaska''), CStr (ascii ''1,234.5''), CStr (ascii ''n/a''), CFloat NaN]]"

text \<open>A sheet without a header row.\<close>

definition no_header :: grid where
  "no_header = [[CStr (ascii ''State''), CStr (ascii ''Rate'')],
                [CStr (ascii ''Alabama''), CStr (ascii ''63.6%'')]]"

text \<open>
  One block whose data rows are a caption, a row without a label (\<open>nan\<close>), a label of
  spaces, the national row in capitals, and one state.
\<close>

definition skip_rows :: grid where
  "skip_rows =
     [[CStr [], CInt 2020, CInt 2016, CInt 2012],
      [CFloat NaN, CStr (ascii ''Total''), CStr (ascii ''Total''), CStr (ascii ''Total'')],
      [CStr (ascii ''Table 2. Reported voting''), CFloat NaN, CFloat NaN, CFloat NaN],
      [CFloat NaN, CInt 1, CInt 2, CInt 3],
      [CStr (ascii ''  ''), CInt 1, CInt 2, CInt 3],
      [CStr (ascii ''UNITED STATES''), CStr (ascii ''66.8''), CStr (ascii ''61.4''), CInt 58],
      [CStr (ascii ''Alabama''), CStr (ascii ''63.6%''), CStr (ascii ''59.1''), CInt 50]]"

text \<open>A sheet whose last row is a row of years.\<close>

definition trailing_header :: grid where
  "trailing_header =
     [[CStr (ascii ''Alabama''), CStr (ascii ''63.6%''), CStr (ascii ''59.1''), CInt 50],
      [CStr [], CInt 2020, CInt 2016, CInt 2012]]"

section \<open>The metric preference resolver of the specification\<close>

text \<open>
  The specification's resolver: the year map holds a column for the total variant and
  one for the citizen variant, each possibly missing, and \<open>resolve\<close> returns the column
  of the first variant of the preference list that has one.
\<close>

datatype variant = TotalVariant | CitizenVariant

definition variant_col :: "nat option \<times> nat option \<Rightarrow> variant \<Rightarrow> nat option" where
  "variant_col cols v = (case v of TotalVariant \<Rightarrow> fst cols | CitizenVariant \<Rightarrow> snd cols)"

fun resolve :: "variant list \<Rightarrow> nat option \<times> nat option \<Rightarrow> nat option" where
  "resolve [] cols = None"
| "resolve (v # vs) cols = (case variant_col cols v of Some c \<Rightarrow> Some c | None \<Rightarrow> resolve vs cols)"

text \<open>
  The records one period gives for the row \<open>r\<close> once its column is chosen: one record
  with the cleaned value of that cell, or none when there is no column, the column lies
  outside the frame or the value is missing.
\<close>

definition cell_record :: "grid \<Rightarrow> nat \<Rightarrow> pystr \<Rightarrow> int \<Rightarrow> nat option \<Rightarrow> turnout_record list" where
  "cell_record df r st y col =
     (case col of
        None \<Rightarrow> []
      | Some c \<Rightarrow>
          if n_cols df \<le> c then []
          else (case iat df r c of
                  Inl e \<Rightarrow> []
                | Inr v \<Rightarrow>
                    (case clean_percentage_like v of
                       Inr (Some t) \<Rightarrow> [\<lparr>year = y, state = st, turnout = t\<rparr>]
                     | _ \<Rightarrow> [])))"

text \<open>
  The records the specification asks of the row \<open>r\<close> under a preference list: none for a
  row that is skipped, and otherwise, for each period of the year map in turn, the record
  of the column that the resolver picks.
\<close>

definition resolved_records :: "variant list \<Rightarrow> grid \<Rightarrow> year_map \<Rightarrow> nat \<Rightarrow> turnout_record list" where
  "resolved_records prefs df ym r =
     (case iat df r 0 of
        Inl e \<Rightarrow> []
      | Inr state_raw \<Rightarrow>
          (let st = state_of state_raw in
           if is_separator st \<or> is_aggregate st then []
           else concat (map (\<lambda>(y, cols). cell_record df r st y (resolve prefs cols)) ym)))"

section \<open>Notions of the specification about blocks\<close>

text \<open>The number of different periods among the year tokens \<open>(column, year)\<close> of a row.\<close>

definition distinct_periods :: "(nat \<times> int) list \<Rightarrow> nat" where
  "distinct_periods ys = length (remdups (map snd ys))"

text \<open>
  The data region of the \<open>k\<close>-th block: the rows from two below its anchor up to, and
  without, the anchor of the next block, or to the end of the frame for the last block.
\<close>

definition data_region :: "grid \<Rightarrow> (nat \<times> year_map) list \<Rightarrow> nat \<Rightarrow> nat set" where
  "data_region df blocks k =
     {fst (blocks ! k) + 2 ..< (if k + 1 < length blocks then fst (blocks ! (k + 1)) else n_rows df)}"

text \<open>A sheet whose header row holds the same year three times.\<close>

definition repeated_year :: grid where
  "repeated_year =
     [[CStr [], CInt 2020, CInt 2020, CInt 2020],
      [CFloat NaN, CStr (ascii ''Total''), CStr (ascii ''Citizen''), CStr (ascii ''Total'')],
      [CStr (ascii ''Alabama''), CStr (ascii ''63.6%''), CStr (ascii ''59.1''), CInt 50]]"

text \<open>
  The boundary test of the extractor on row \<open>r\<close>, and the first row from \<open>r\<close> on that
  meets it (the row count, or \<open>r\<close> itself beyond it, when there is none).
\<close>

definition is_boundary :: "grid \<Rightarrow> nat \<Rightarrow> bool" where
  "is_boundary df r \<longleftrightarrow> (case years_here df r [1..<n_cols df] of Inl e \<Rightarrow> False | Inr k \<Rightarrow> 3 \<le> k)"

function first_boundary :: "grid \<Rightarrow> nat \<Rightarrow> nat" where
  "first_boundary df r = (if r < n_rows df \<and> \<not> is_boundary df r then first_boundary df (r + 1) else r)"
  by pat_completeness auto
termination
  by (relation "measure (\<lambda>(df, r). n_rows df - r)") auto

declare first_boundary.simps [simp del]

text \<open>
  What one data row contributes once it has passed the boundary test, and the records of
  a list of rows, each processed in turn.
\<close>

definition row_records :: "grid \<Rightarrow> year_map \<Rightarrow> nat \<Rightarrow> py_error + turnout_record list" where
  "row_records df ym r =
     (case iat df r 0 of
        Inl e \<Rightarrow> Inl e
      | Inr state_raw \<Rightarrow>
          (let st = state_of state_raw in
           if is_separator st \<or> is_aggregate st then Inr [] else emit_years df r st ym))"

fun collect_rows :: "grid \<Rightarrow> year_map \<Rightarrow> nat list \<Rightarrow> py_error + turnout_record list" where
  "collect_rows df ym [] = Inr []"
| "collect_rows df ym (r # rs) =
     (case row_records df ym r of
        Inl e \<Rightarrow> Inl e
      | Inr recs \<Rightarrow>
          (case collect_rows df ym rs of
             Inl e \<Rightarrow> Inl e
           | Inr later \<Rightarrow> Inr (recs @ later)))"

text \<open>
  \<open>anchors_from df i blocks\<close>: scanning from row \<open>i\<close>, the first boundary row is the anchor
  of the first block, from two rows below it the first boundary row is the anchor of the
  second, and so on; after the last block no row before the last one is a boundary row.
\<close>

fun anchors_from :: "grid \<Rightarrow> nat \<Rightarrow> (nat \<times> year_map) list \<Rightarrow> bool" where
  "anchors_from df i [] \<longleftrightarrow> n_rows df - 1 \<le> first_boundary df i"
| "anchors_from df i (b # bs) \<longleftrightarrow> first_boundary df i = fst b \<and> anchors_from df (fst b + 2) bs"

section \<open>The specification's reading of the value cleaner\<close>

text \<open>Stripping a trailing percent sign, as the specification words it: only the last character.\<close>

definition strip_trailing_percent :: "pystr \<Rightarrow> pystr" where
  "strip_trailing_percent s = (if s \<noteq> [] \<and> last s = 37 then butlast s else s)"

section \<open>Basic facts about the detector\<close>

lemma is_year_str_range: "is_year_str s = Inr (Some y) \<Longrightarrow> 1900 \<le> y \<and> y \<le> 2100"
  by (auto simp: is_year_str_def Let_def split: if_splits sum.splits)

lemma is_year_str_error: "is_year_str s = Inl e \<Longrightarrow> e = invalid_int"
  by (auto simp: is_year_str_def py_int_def Let_def split: if_splits sum.splits prod.splits)

lemma scan_years_range:
  "scan_years df i js = Inr ys \<Longrightarrow> (j, y) \<in> set ys \<Longrightarrow> j \<in> set js \<and> 1900 \<le> y \<and> y \<le> 2100"
proof (induction js arbitrary: ys)
  case Nil
  then show ?case by simp
next
  case (Cons a js)
  then show ?case
    by (auto split: sum.splits option.splits dest: is_year_str_range)
qed

lemma dict_set_keys: "fst ` set (dict_set m k v) = insert k (fst ` set m)"
  by (induction m k v rule: dict_set.induct) auto

lemma build_year_map_keys:
  "build_year_map df sub_r ys ym = Inr ym' \<Longrightarrow> fst ` set ym' = fst ` set ym \<union> snd ` set ys"
proof (induction ys arbitrary: ym)
  case Nil
  then show ?case by simp
next
  case (Cons p ys)
  obtain j y where p: "p = (j, y)" by (cases p)
  from Cons.prems p obtain sub_j sub_j1 where
    "build_year_map df sub_r ys (dict_set ym y (year_cols sub_j sub_j1 j)) = Inr ym'"
    by (auto split: sum.splits)
  from Cons.IH [OF this] show ?case
    by (simp add: p dict_set_keys)
qed

lemma find_loop_invariant:
  assumes "find_loop df i bs = Inr blocks"
    and "list_all Q bs"
    and step: "\<And>a ys ym. a < n_rows df - 1 \<Longrightarrow> scan_years df a [1..<n_cols df] = Inr ys \<Longrightarrow>
        3 \<le> length ys \<Longrightarrow> build_year_map df (a + 1) ys [] = Inr ym \<Longrightarrow> Q (a, ym)"
  shows "list_all Q blocks"
  using assms
proof (induction df i bs rule: find_loop.induct)
  case (1 df i bs)
  show ?case
  proof (cases "i < n_rows df - 1")
    case False
    with "1.prems" show ?thesis by (simp add: find_loop.simps)
  next
    case True
    from "1.prems"(1) True obtain ys where ys: "scan_years df i [1..<n_cols df] = Inr ys"
      by (subst (asm) find_loop.simps) (auto split: sum.splits)
    show ?thesis
    proof (cases "3 \<le> length ys")
      case False
      with "1.prems" True ys have "find_loop df (i + 1) bs = Inr blocks"
        by (subst (asm) find_loop.simps) simp
      from "1.IH"(4) [OF True ys False this "1.prems"(2,3)] show ?thesis .
    next
      case long: True
      have sub: "i + 1 < n_rows df" using True by simp
      from "1.prems"(1) True ys long sub obtain ym where ym: "build_year_map df (i + 1) ys [] = Inr ym"
        by (subst (asm) find_loop.simps) (auto split: sum.splits)
      show ?thesis
      proof (cases "ym = []")
        case True
        with "1.prems"(1) \<open>i < n_rows df - 1\<close> ys long sub ym
        have "find_loop df (i + 1) bs = Inr blocks"
          by (subst (asm) find_loop.simps) simp
        from "1.IH"(2) [OF \<open>i < n_rows df - 1\<close> ys long sub ym _ this "1.prems"(2,3)] True
        show ?thesis by simp
      next
        case False
        with "1.prems"(1) \<open>i < n_rows df - 1\<close> ys long sub ym
        have run: "find_loop df (i + 1 + 1) (bs @ [(i, ym)]) = Inr blocks"
          by (subst (asm) find_loop.simps) simp
        have "Q (i, ym)" using "1.prems"(3) [OF \<open>i < n_rows df - 1\<close> ys long ym] .
        with "1.prems"(2) have "list_all Q (bs @ [(i, ym)])" by simp
        from "1.IH"(1) [OF \<open>i < n_rows df - 1\<close> ys long sub ym False run this "1.prems"(3)]
        show ?thesis .
      qed
    qed
  qed
qed

section \<open>Basic facts about the extractor and the engine\<close>

lemma emit_years_fields:
  "emit_years df r st ym = Inr recs \<Longrightarrow> x \<in> set recs \<Longrightarrow> year x \<in> fst ` set ym \<and> state x = st"
proof (induction df r st ym arbitrary: recs rule: emit_years.induct)
  case (1 df r st)
  then show ?case by simp
next
  case (2 df r st y total_idx citizen_idx rest)
  then show ?case
    by (fastforce simp: Let_def split: option.splits if_splits sum.splits)
qed

lemma parse_loop_years:
  "parse_loop df ym r records = Inr recs \<Longrightarrow> year ` set recs \<subseteq> year ` set records \<union> fst ` set ym"
proof (induction df ym r records rule: parse_loop.induct)
  case (1 df ym r records)
  show ?case
  proof (cases "r < n_rows df")
    case False
    with "1.prems" show ?thesis by (simp add: parse_loop.simps)
  next
    case True
    from "1.prems" True obtain k where k: "years_here df r [1..<n_cols df] = Inr k"
      by (subst (asm) parse_loop.simps) (auto split: sum.splits)
    show ?thesis
    proof (cases "3 \<le> k")
      case True
      with "1.prems" \<open>r < n_rows df\<close> k show ?thesis
        by (subst (asm) parse_loop.simps) auto
    next
      case False
      from "1.prems" True k False obtain state_raw where raw: "iat df r 0 = Inr state_raw"
        by (subst (asm) parse_loop.simps) (auto split: sum.splits)
      define st where "st = state_of state_raw"
      consider (sep) "is_separator st" | (agg) "\<not> is_separator st" "is_aggregate st"
        | (data) "\<not> is_separator st" "\<not> is_aggregate st" by blast
      then show ?thesis
      proof cases
        case sep
        with "1.prems" True k False raw have "parse_loop df ym (r + 1) records = Inr recs"
          by (subst (asm) parse_loop.simps) (simp add: st_def)
        from "1.IH"(1) [OF True k False raw st_def sep this] show ?thesis .
      next
        case agg
        with "1.prems" True k False raw have "parse_loop df ym (r + 1) records = Inr recs"
          by (subst (asm) parse_loop.simps) (simp add: st_def)
        from "1.IH"(2) [OF True k False raw st_def agg this] show ?thesis .
      next
        case data
        with "1.prems" True k False raw obtain new where
          new: "emit_years df r st ym = Inr new" and
          run: "parse_loop df ym (r + 1) (records @ new) = Inr recs"
          by (subst (asm) parse_loop.simps) (auto simp: st_def split: sum.splits)
        from "1.IH"(3) [OF True k False raw st_def data new run]
        have "year ` set recs \<subseteq> year ` set (records @ new) \<union> fst ` set ym" .
        moreover have "year ` set new \<subseteq> fst ` set ym"
          using emit_years_fields [OF new] by auto
        ultimately show ?thesis by (simp add: image_Un) blast
      qed
    qed
  qed
qed

lemma parse_block_years:
  "parse_block df h ym = Inr recs \<Longrightarrow> year ` set recs \<subseteq> fst ` set ym"
  using parse_loop_years [of df ym "h + 2" "[]" recs] by (simp add: parse_block_def)

lemma extend_all_concat:
  "extend_all pb df blocks acc = Inr all_records \<Longrightarrow>
     \<exists>per. list_all2 (\<lambda>b recs. pb df (fst b) (snd b) = Inr recs) blocks per \<and>
           all_records = acc @ concat per"
proof (induction blocks arbitrary: acc)
  case Nil
  then show ?case by simp
next
  case (Cons b blocks)
  obtain h ym where b: "b = (h, ym)" by (cases b)
  from Cons.prems b obtain recs where recs: "pb df h ym = Inr recs"
    and run: "extend_all pb df blocks (acc @ recs) = Inr all_records"
    by (auto split: sum.splits)
  from Cons.IH [OF run] obtain per where
    "list_all2 (\<lambda>b recs. pb df (fst b) (snd b) = Inr recs) blocks per"
    "all_records = (acc @ recs) @ concat per" by blast
  with recs b have "list_all2 (\<lambda>b recs. pb df (fst b) (snd b) = Inr recs) (b # blocks) (recs # per)
      \<and> all_records = acc @ concat (recs # per)" by simp
  then show ?case by blast
qed

lemma find_loop_keys:
  assumes "find_loop df i bs = Inr blocks"
    and "list_all (\<lambda>(a, ym). \<forall>y \<in> fst ` set ym. 1900 \<le> y \<and> y \<le> 2100) bs"
  shows "list_all (\<lambda>(a, ym). \<forall>y \<in> fst ` set ym. 1900 \<le> y \<and> y \<le> 2100) blocks"
proof (rule find_loop_invariant [OF assms])
  fix a ys ym
  assume ys: "scan_years df a [1..<n_cols df] = Inr ys"
    and ym: "build_year_map df (a + 1) ys [] = Inr ym"
  have keys: "fst ` set ym = snd ` set ys" using build_year_map_keys [OF ym] by simp
  have "1900 \<le> y \<and> y \<le> 2100" if "y \<in> fst ` set ym" for y
  proof -
    from that keys obtain j where "(j, y) \<in> set ys" by auto
    from scan_years_range [OF ys this] show ?thesis by simp
  qed
  then show "case (a, ym) of (a, ym) \<Rightarrow> \<forall>y \<in> fst ` set ym. 1900 \<le> y \<and> y \<le> 2100"
    by blast
qed

lemma normalize_with_Inr:
  assumes "normalize_with pb sheet = Inr out"
  obtains blocks all_records where
    "find_header_blocks (dropna_cols (dropna_rows sheet)) = Inr blocks" "blocks \<noteq> []"
    "extend_all pb (dropna_cols (dropna_rows sheet)) blocks [] = Inr all_records"
    "out = sort_records all_records"
  using assms by (auto simp: normalize_with_def Let_def split: sum.splits if_splits)

section \<open>Evaluation of the example sheets\<close>

lemmas ev = ascii_def space_points_def isspace_def py_strip_def lower_cp_def py_lower_def startswith_def remove_char_def
  decimal_starts_def decimal_value_def other_digit_ranges_def isdigit_cp_def py_isdigit_def
  digits_val_def is_ascii_digit_def c_isspace_def c_strip_def split_sign_def invalid_int_def py_int_def
  overflows_def bit_length.simps round_half_even_def binary_exponent_def to_binary64_def
  reads_as_def pick_def candidate_def shortest_digits.simps
  decimal_exponent_def float_of_decimal_def float_of_int_def parse_number_def invalid_float_def
  py_float_def float_repr_def py_str_def clean_percentage_like_def is_year_str_def Let_def
  digits_of.simps strip_zeros.simps

lemmas ev_grid = n_rows_def n_cols_def iat_def sub_label_def year_cols_def find_loop.simps
  find_header_blocks_def state_of_def is_separator_def is_aggregate_def parse_loop.simps
  parse_block_def sort_key_of_def sort_records_def no_blocks_def normalize_with_def
  normalize_a5a_def isna_def dropna_rows_def dropna_cols_def

lemma two_blocks_dropna: "dropna_cols (dropna_rows two_blocks) = two_blocks"
  by (simp add: two_blocks_def ev_grid)

lemma two_blocks_found:
  "find_header_blocks two_blocks =
     Inr [(0, [(2020, Some 1, Some 2), (2016, Some 3, Some 2), (2012, Some 3, None)]),
          (4, [(2008, Some 1, Some 2), (2004, Some 3, Some 2), (2000, Some 3, None)])]"
  by (simp add: two_blocks_def ev ev_grid)

lemma two_blocks_first:
  "parse_block two_blocks 0 [(2020, Some 1, Some 2), (2016, Some 3, Some 2), (2012, Some 3, None)] =
     Inr [\<lparr>year = 2020, state = ascii ''Alabama'', turnout = Fin False 591 (- 1)\<rparr>,
          \<lparr>year = 2016, state = ascii ''Alabama'', turnout = Fin False 591 (- 1)\<rparr>,
          \<lparr>year = 2012, state = ascii ''Alabama'', turnout = Fin False 5 1\<rparr>]"
  by (simp add: two_blocks_def ev ev_grid)

lemma two_blocks_second:
  "parse_block two_blocks 4 [(2008, Some 1, Some 2), (2004, Some 3, Some 2), (2000, Some 3, None)] =
     Inr []"
  by (simp add: two_blocks_def ev ev_grid)

lemma no_header_dropna: "dropna_cols (dropna_rows no_header) = no_header"
  by (simp add: no_header_def ev_grid ascii_def)

lemma no_header_found: "find_header_blocks no_header = Inr []"
  by (simp add: no_header_def ev ev_grid)

lemma two_blocks_normalized:
  "normalize_a5a two_blocks =
     Inr [\<lparr>year = 2012, state = ascii ''Alabama'', turnout = Fin False 5 1\<rparr>,
          \<lparr>year = 2016, state = ascii ''Alabama'', turnout = Fin False 591 (- 1)\<rparr>,
          \<lparr>year = 2020, state = ascii ''Alabama'', turnout = Fin False 591 (- 1)\<rparr>]"
  by (simp add: normalize_a5a_def normalize_with_def two_blocks_dropna two_blocks_found
      two_blocks_first two_blocks_second sort_records_def sort_key_of_def ascii_def
      del: One_nat_def)

section \<open>No header block is a hard failure\<close>

text \<open>
  Claim C8. When the detector finds no header block in the frame (after the empty rows and
  columns are dropped), the engine fails with the \<open>ValueError\<close> that says so, whatever the
  row extractor would do, so the extractor is not consulted; and the engine returns
  records only when the detector found at least one block.
\<close>

theorem no_blocks_hard_failure:
  "(find_header_blocks (dropna_cols (dropna_rows sheet)) = Inr [] \<longrightarrow>
      (\<forall>pb. normalize_with pb sheet =
              Inl (ValueError ''Could not detect any header blocks in a5a.xlsx''))
      \<and> normalize_a5a sheet = Inl (ValueError ''Could not detect any header blocks in a5a.xlsx''))
   \<and> (\<forall>recs. normalize_a5a sheet = Inr recs \<longrightarrow>
        (\<exists>b bs. find_header_blocks (dropna_cols (dropna_rows sheet)) = Inr (b # bs)))"
proof (intro conjI impI allI)
  fix pb
  assume "find_header_blocks (dropna_cols (dropna_rows sheet)) = Inr []"
  then show "normalize_with pb sheet =
      Inl (ValueError ''Could not detect any header blocks in a5a.xlsx'')"
    by (simp add: normalize_with_def no_blocks_def)
next
  assume "find_header_blocks (dropna_cols (dropna_rows sheet)) = Inr []"
  then show "normalize_a5a sheet =
      Inl (ValueError ''Could not detect any header blocks in a5a.xlsx'')"
    by (simp add: normalize_a5a_def normalize_with_def no_blocks_def)
next
  fix recs
  assume "normalize_a5a sheet = Inr recs"
  then obtain blocks where "find_header_blocks (dropna_cols (dropna_rows sheet)) = Inr blocks"
    and "blocks \<noteq> []"
    unfolding normalize_a5a_def by (rule normalize_with_Inr)
  then show "\<exists>b bs. find_header_blocks (dropna_cols (dropna_rows sheet)) = Inr (b # bs)"
    by (cases blocks) auto
qed

theorem no_blocks_hard_failure_witness:
  "find_header_blocks (dropna_cols (dropna_rows no_header)) = Inr []
   \<and> normalize_a5a no_header = Inl (ValueError ''Could not detect any header blocks in a5a.xlsx'')
   \<and> (\<exists>recs. normalize_a5a two_blocks = Inr recs)
   \<and> (\<exists>b bs. find_header_blocks (dropna_cols (dropna_rows two_blocks)) = Inr (b # bs))"
  using no_blocks_hard_failure [of no_header] no_blocks_hard_failure [of two_blocks]
  by (simp add: no_header_dropna no_header_found two_blocks_normalized)

section \<open>Every record carries a year between 1900 and 2100\<close>

text \<open>
  Claim C10. Every record that \<open>normalize_a5a\<close> returns has a year from 1900 to 2100: the
  keys of a block's year map are results of \<open>is_year_str\<close>, and the extractor only emits
  records for those keys.
\<close>

theorem record_years_in_bounds:
  assumes "normalize_a5a sheet = Inr recs" and "r \<in> set recs"
  shows "1900 \<le> year r \<and> year r \<le> 2100"
proof -
  define df where "df = dropna_cols (dropna_rows sheet)"
  from assms(1) obtain blocks all_records where
    blocks: "find_header_blocks df = Inr blocks" and
    ext: "extend_all parse_block df blocks [] = Inr all_records" and
    out: "recs = sort_records all_records"
    unfolding normalize_a5a_def df_def by (rule normalize_with_Inr)
  have keys: "list_all (\<lambda>(a, ym). \<forall>y \<in> fst ` set ym. 1900 \<le> y \<and> y \<le> 2100) blocks"
    using find_loop_keys [of df 0 "[]" blocks] blocks by (simp add: find_header_blocks_def)
  from extend_all_concat [OF ext] obtain per where
    per: "list_all2 (\<lambda>b recs. parse_block df (fst b) (snd b) = Inr recs) blocks per"
    and all: "all_records = concat per" by auto
  from assms(2) out have "r \<in> set all_records" by (simp add: sort_records_def)
  with all obtain rs where rs: "rs \<in> set per" and r: "r \<in> set rs" by auto
  from rs obtain k where k: "k < length per" and rsk: "rs = per ! k"
    by (auto simp: in_set_conv_nth)
  from per k have len: "k < length blocks" by (simp add: list_all2_lengthD)
  from per k rsk have pb: "parse_block df (fst (blocks ! k)) (snd (blocks ! k)) = Inr rs"
    by (simp add: list_all2_conv_all_nth)
  from parse_block_years [OF pb] r have "year r \<in> fst ` set (snd (blocks ! k))" by auto
  moreover have "\<forall>y \<in> fst ` set (snd (blocks ! k)). 1900 \<le> y \<and> y \<le> 2100"
  proof -
    from len have "blocks ! k \<in> set blocks" by simp
    with keys have "(\<lambda>(a, ym). \<forall>y \<in> fst ` set ym. 1900 \<le> y \<and> y \<le> 2100) (blocks ! k)"
      by (simp add: list_all_iff)
    then show ?thesis by (cases "blocks ! k") simp
  qed
  ultimately show ?thesis by blast
qed

theorem record_years_in_bounds_witness:
  "normalize_a5a two_blocks =
     Inr [\<lparr>year = 2012, state = ascii ''Alabama'', turnout = Fin False 5 1\<rparr>,
          \<lparr>year = 2016, state = ascii ''Alabama'', turnout = Fin False 591 (- 1)\<rparr>,
          \<lparr>year = 2020, state = ascii ''Alabama'', turnout = Fin False 591 (- 1)\<rparr>]
   \<and> 1900 \<le> year \<lparr>year = 2012, state = ascii ''Alabama'', turnout = Fin False 5 1\<rparr>
   \<and> year \<lparr>year = 2012, state = ascii ''Alabama'', turnout = Fin False 5 1\<rparr> \<le> 2100"
  using record_years_in_bounds [OF two_blocks_normalized,
      of "\<lparr>year = 2012, state = ascii ''Alabama'', turnout = Fin False 5 1\<rparr>"]
    two_blocks_normalized
  by simp

section \<open>The detector reads inside the frame\<close>

lemma iat_inside:
  "rectangular df \<Longrightarrow> i < n_rows df \<Longrightarrow> j < n_cols df \<Longrightarrow> iat df i j = Inr (df ! i ! j)"
  by (simp add: rectangular_def n_rows_def iat_def list_all_length)

lemma scan_years_no_index_error:
  assumes "rectangular df" and "i < n_rows df"
  shows "\<forall>j \<in> set js. j < n_cols df \<Longrightarrow> scan_years df i js \<noteq> Inl IndexError"
proof (induction js)
  case Nil
  then show ?case by simp
next
  case (Cons j js)
  then have "iat df i j = Inr (df ! i ! j)" using assms by (simp add: iat_inside)
  with Cons show ?case
    by (auto simp: invalid_int_def split: sum.splits dest!: is_year_str_error)
qed

lemma sub_label_no_index_error:
  "rectangular df \<Longrightarrow> sub_r < n_rows df \<Longrightarrow> sub_label df sub_r j \<noteq> Inl IndexError"
  by (auto simp: sub_label_def iat_inside)

lemma build_year_map_no_index_error:
  assumes "rectangular df" and "sub_r < n_rows df"
  shows "build_year_map df sub_r ys ym \<noteq> Inl IndexError"
proof (induction ys arbitrary: ym)
  case Nil
  then show ?case by simp
next
  case (Cons p ys)
  obtain j y where p: "p = (j, y)" by (cases p)
  show ?case
    using sub_label_no_index_error [OF assms, of j] sub_label_no_index_error [OF assms, of "j + 1"]
      Cons.IH
    by (auto simp: p split: sum.splits)
qed

lemma find_loop_no_index_error:
  "rectangular df \<Longrightarrow> find_loop df i bs \<noteq> Inl IndexError"
proof (induction df i bs rule: find_loop.induct)
  case (1 df i bs)
  show ?case
  proof (cases "i < n_rows df - 1")
    case False
    then show ?thesis by (simp add: find_loop.simps)
  next
    case True
    then have row: "i < n_rows df" and sub: "i + 1 < n_rows df" by simp_all
    have scan: "scan_years df i [1..<n_cols df] \<noteq> Inl IndexError"
      using scan_years_no_index_error [OF "1.prems" row] by simp
    have build: "build_year_map df (i + 1) ys [] \<noteq> Inl IndexError" for ys
      using build_year_map_no_index_error [OF "1.prems" sub] .
    show ?thesis
    proof (cases "scan_years df i [1..<n_cols df]")
      case (Inl e)
      with scan True show ?thesis by (simp add: find_loop.simps)
    next
      case (Inr ys)
      show ?thesis
      proof (cases "3 \<le> length ys")
        case False
        with True Inr "1.IH"(4) [OF True Inr False "1.prems"] show ?thesis
          by (subst find_loop.simps) simp
      next
        case long: True
        show ?thesis
        proof (cases "build_year_map df (i + 1) ys []")
          case (Inl e)
          with build [of ys] True Inr long sub show ?thesis
            by (subst find_loop.simps) simp
        next
          case ym: (Inr ym)
          show ?thesis
          proof (cases "ym = []")
            case True
            with \<open>i < n_rows df - 1\<close> Inr long sub ym
              "1.IH"(2) [OF \<open>i < n_rows df - 1\<close> Inr long sub ym _ "1.prems"]
            show ?thesis by (subst find_loop.simps) simp
          next
            case False
            with \<open>i < n_rows df - 1\<close> Inr long sub ym
              "1.IH"(1) [OF \<open>i < n_rows df - 1\<close> Inr long sub ym False "1.prems"]
            show ?thesis by (subst find_loop.simps) simp
          qed
        qed
      qed
    qed
  qed
qed

lemma find_loop_anchors_inside:
  assumes "find_loop df i bs = Inr blocks"
    and "list_all (\<lambda>(a, ym). a + 1 < n_rows df) bs"
  shows "list_all (\<lambda>(a, ym). a + 1 < n_rows df) blocks"
  by (rule find_loop_invariant [OF assms]) simp

lemma two_blocks_rectangular: "rectangular two_blocks"
  by (simp add: rectangular_def two_blocks_def n_cols_def)

lemma trailing_header_rectangular: "rectangular trailing_header"
  by (simp add: rectangular_def trailing_header_def n_cols_def)

lemma trailing_header_found: "find_header_blocks trailing_header = Inr []"
  by (simp add: trailing_header_def ev ev_grid)

lemma trailing_header_last_row:
  "scan_years trailing_header 1 [1..<n_cols trailing_header] = Inr [(1, 2020), (2, 2016), (3, 2012)]"
  by (simp add: trailing_header_def ev ev_grid)

text \<open>
  Claim C9. In a rectangular frame the detector never reads outside the frame (it cannot
  end in an \<open>IndexError\<close>), and every block it returns has its anchor row at least two rows
  before the end, so the sub-header row \<open>anchor_row + 1\<close> exists; in particular the last
  row is never an anchor, whatever it holds.
\<close>

theorem anchor_row_has_subheader:
  assumes "rectangular df"
  shows "find_header_blocks df \<noteq> Inl IndexError
    \<and> (\<forall>blocks a ym. find_header_blocks df = Inr blocks \<longrightarrow> (a, ym) \<in> set blocks \<longrightarrow>
          a + 1 < n_rows df \<and> a \<noteq> n_rows df - 1)"
proof (intro conjI allI impI)
  show "find_header_blocks df \<noteq> Inl IndexError"
    using find_loop_no_index_error [OF assms] by (simp add: find_header_blocks_def)
next
  fix blocks a ym
  assume found: "find_header_blocks df = Inr blocks" and mem: "(a, ym) \<in> set blocks"
  have "list_all (\<lambda>(a, ym). a + 1 < n_rows df) blocks"
    using find_loop_anchors_inside [of df 0 "[]" blocks] found
    by (simp add: find_header_blocks_def)
  with mem have "a + 1 < n_rows df" by (auto simp: list_all_iff)
  then show "a + 1 < n_rows df" "a \<noteq> n_rows df - 1" by simp_all
qed

theorem anchor_row_has_subheader_witness:
  "rectangular two_blocks
   \<and> find_header_blocks two_blocks =
       Inr [(0, [(2020, Some 1, Some 2), (2016, Some 3, Some 2), (2012, Some 3, None)]),
            (4, [(2008, Some 1, Some 2), (2004, Some 3, Some 2), (2000, Some 3, None)])]
   \<and> find_header_blocks two_blocks \<noteq> Inl IndexError
   \<and> 0 + 1 < n_rows two_blocks \<and> 4 + 1 < n_rows two_blocks
   \<and> rectangular trailing_header
   \<and> find_header_blocks trailing_header = Inr []"
proof -
  note main = anchor_row_has_subheader [OF two_blocks_rectangular]
  from main have inside: "(a, ym) \<in> set blocks \<Longrightarrow> find_header_blocks two_blocks = Inr blocks \<Longrightarrow>
      a + 1 < n_rows two_blocks" for a ym blocks
    by blast
  have "0 + 1 < n_rows two_blocks"
    by (rule inside [OF _ two_blocks_found]) simp
  moreover have "4 + 1 < n_rows two_blocks"
    by (rule inside [OF _ two_blocks_found]) simp
  moreover from main have "find_header_blocks two_blocks \<noteq> Inl IndexError" by blast
  moreover from anchor_row_has_subheader [OF trailing_header_rectangular]
  have "find_header_blocks trailing_header \<noteq> Inl IndexError" by blast
  ultimately show ?thesis
    using two_blocks_rectangular two_blocks_found trailing_header_rectangular
      trailing_header_found by blast
qed

section \<open>The merged output is a stable sort\<close>

lemma sort_key_of_le:
  "sort_key_of a \<le> sort_key_of b \<longleftrightarrow>
     year a < year b \<or> (year a = year b \<and>
       (state a = state b \<or> (state a, state b) \<in> lexord {(x, y). x < y}))"
  by (auto simp: sort_key_of_def less_eq_prod_def list_le_def list_less_def)

lemma sort_records_sorted:
  "sorted_wrt (\<lambda>a b. year a < year b \<or> (year a = year b \<and>
       (state a = state b \<or> (state a, state b) \<in> lexord {(x, y). x < y}))) (sort_records rs)"
proof -
  have "sorted (map sort_key_of (sort_records rs))"
    by (simp add: sort_records_def)
  then have "sorted_wrt (\<lambda>a b. sort_key_of a \<le> sort_key_of b) (sort_records rs)"
    by (simp add: sorted_map)
  then show ?thesis by (simp add: sort_key_of_le)
qed

text \<open>
  Claim C7. What \<open>normalize_a5a\<close> returns is the records of the blocks, block after block,
  sorted; \<open>main\<close> of \<open>normalize_turnout.py\<close> sorts the records of its files, file after
  file. The sort puts the records in ascending order of year and, within a year, of state
  by code points; it keeps every record as often as it occurs (no pair of year and state
  is removed), and it keeps records with the same year and state in their order.
\<close>

theorem merged_output_sorted_stably:
  "(\<forall>out. normalize_a5a sheet = Inr out \<longrightarrow>
      (\<exists>blocks per.
          find_header_blocks (dropna_cols (dropna_rows sheet)) = Inr blocks
        \<and> list_all2 (\<lambda>b recs. parse_block (dropna_cols (dropna_rows sheet)) (fst b) (snd b) = Inr recs)
             blocks per
        \<and> out = sort_records (concat per)))
   \<and> merge_files per_file = sort_records (concat per_file)
   \<and> sorted_wrt (\<lambda>a b. year a < year b \<or> (year a = year b \<and>
         (state a = state b \<or> (state a, state b) \<in> lexord {(x, y). x < y}))) (sort_records rs)
   \<and> mset (sort_records rs) = mset rs
   \<and> length (sort_records rs) = length rs
   \<and> (\<forall>k. filter (\<lambda>r. sort_key_of r = k) (sort_records rs) = filter (\<lambda>r. sort_key_of r = k) rs)"
proof (intro conjI allI impI)
  fix out
  assume "normalize_a5a sheet = Inr out"
  then obtain blocks all_records where
    blocks: "find_header_blocks (dropna_cols (dropna_rows sheet)) = Inr blocks" and
    ext: "extend_all parse_block (dropna_cols (dropna_rows sheet)) blocks [] = Inr all_records" and
    out: "out = sort_records all_records"
    unfolding normalize_a5a_def by (rule normalize_with_Inr)
  from extend_all_concat [OF ext] blocks out
  show "\<exists>blocks per.
          find_header_blocks (dropna_cols (dropna_rows sheet)) = Inr blocks
        \<and> list_all2 (\<lambda>b recs. parse_block (dropna_cols (dropna_rows sheet)) (fst b) (snd b) = Inr recs)
             blocks per
        \<and> out = sort_records (concat per)"
    by auto
next
  show "merge_files per_file = sort_records (concat per_file)"
    by (simp add: merge_files_def)
next
  show "sorted_wrt (\<lambda>a b. year a < year b \<or> (year a = year b \<and>
         (state a = state b \<or> (state a, state b) \<in> lexord {(x, y). x < y}))) (sort_records rs)"
    by (rule sort_records_sorted)
next
  show "mset (sort_records rs) = mset rs" by (simp add: sort_records_def)
next
  show "length (sort_records rs) = length rs" by (simp add: sort_records_def)
next
  fix k
  show "filter (\<lambda>r. sort_key_of r = k) (sort_records rs) = filter (\<lambda>r. sort_key_of r = k) rs"
    by (simp add: sort_records_def sort_key_stable)
qed

lemma duplicates_sorted:
  "sort_records
     [\<lparr>year = 2020, state = ascii ''Ohio'', turnout = Fin False 1 0\<rparr>,
      \<lparr>year = 2016, state = ascii ''Utah'', turnout = Fin False 2 0\<rparr>,
      \<lparr>year = 2020, state = ascii ''Iowa'', turnout = Fin False 3 0\<rparr>,
      \<lparr>year = 2020, state = ascii ''Ohio'', turnout = Fin False 4 0\<rparr>] =
     [\<lparr>year = 2016, state = ascii ''Utah'', turnout = Fin False 2 0\<rparr>,
      \<lparr>year = 2020, state = ascii ''Iowa'', turnout = Fin False 3 0\<rparr>,
      \<lparr>year = 2020, state = ascii ''Ohio'', turnout = Fin False 1 0\<rparr>,
      \<lparr>year = 2020, state = ascii ''Ohio'', turnout = Fin False 4 0\<rparr>]"
  by (simp add: sort_records_def sort_key_of_def ascii_def)

theorem merged_output_sorted_stably_witness:
  "normalize_a5a two_blocks =
     Inr [\<lparr>year = 2012, state = ascii ''Alabama'', turnout = Fin False 5 1\<rparr>,
          \<lparr>year = 2016, state = ascii ''Alabama'', turnout = Fin False 591 (- 1)\<rparr>,
          \<lparr>year = 2020, state = ascii ''Alabama'', turnout = Fin False 591 (- 1)\<rparr>]
   \<and> (\<exists>blocks per.
          find_header_blocks (dropna_cols (dropna_rows two_blocks)) = Inr blocks
        \<and> list_all2 (\<lambda>b recs. parse_block (dropna_cols (dropna_rows two_blocks)) (fst b) (snd b) = Inr recs)
             blocks per
        \<and> [\<lparr>year = 2012, state = ascii ''Alabama'', turnout = Fin False 5 1\<rparr>,
            \<lparr>year = 2016, state = ascii ''Alabama'', turnout = Fin False 591 (- 1)\<rparr>,
            \<lparr>year = 2020, state = ascii ''Alabama'', turnout = Fin False 591 (- 1)\<rparr>]
           = sort_records (concat per))
   \<and> merge_files
        [[\<lparr>year = 2020, state = ascii ''Ohio'', turnout = Fin False 1 0\<rparr>,
          \<lparr>year = 2016, state = ascii ''Utah'', turnout = Fin False 2 0\<rparr>],
         [\<lparr>year = 2020, state = ascii ''Iowa'', turnout = Fin False 3 0\<rparr>,
          \<lparr>year = 2020, state = ascii ''Ohio'', turnout = Fin False 4 0\<rparr>]] =
       [\<lparr>year = 2016, state = ascii ''Utah'', turnout = Fin False 2 0\<rparr>,
        \<lparr>year = 2020, state = ascii ''Iowa'', turnout = Fin False 3 0\<rparr>,
        \<lparr>year = 2020, state = ascii ''Ohio'', turnout = Fin False 1 0\<rparr>,
        \<lparr>year = 2020, state = ascii ''Ohio'', turnout = Fin False 4 0\<rparr>]"
  using merged_output_sorted_stably [of two_blocks
      "[[\<lparr>year = 2020, state = ascii ''Ohio'', turnout = Fin False 1 0\<rparr>,
         \<lparr>year = 2016, state = ascii ''Utah'', turnout = Fin False 2 0\<rparr>],
        [\<lparr>year = 2020, state = ascii ''Iowa'', turnout = Fin False 3 0\<rparr>,
         \<lparr>year = 2020, state = ascii ''Ohio'', turnout = Fin False 4 0\<rparr>]]" "[]"]
    two_blocks_normalized duplicates_sorted
  by simp

section \<open>The blocks in row order\<close>

lemma find_loop_sorted:
  "find_loop df i bs = Inr blocks \<Longrightarrow> sorted_wrt (\<lambda>b c. fst b + 2 \<le> fst c) bs \<Longrightarrow>
     \<forall>b \<in> set bs. fst b + 2 \<le> i \<Longrightarrow> sorted_wrt (\<lambda>b c. fst b + 2 \<le> fst c) blocks"
proof (induction df i bs rule: find_loop.induct)
  case (1 df i bs)
  have later: "\<forall>b \<in> set bs. fst b + 2 \<le> i + 1" using "1.prems"(3) by auto
  show ?case
  proof (cases "i < n_rows df - 1")
    case False
    with "1.prems" show ?thesis by (simp add: find_loop.simps)
  next
    case True
    from "1.prems"(1) True obtain ys where ys: "scan_years df i [1..<n_cols df] = Inr ys"
      by (subst (asm) find_loop.simps) (auto split: sum.splits)
    show ?thesis
    proof (cases "3 \<le> length ys")
      case False
      with "1.prems" True ys have "find_loop df (i + 1) bs = Inr blocks"
        by (subst (asm) find_loop.simps) simp
      from "1.IH"(4) [OF True ys False this "1.prems"(2) later] show ?thesis .
    next
      case long: True
      have sub: "i + 1 < n_rows df" using True by simp
      from "1.prems"(1) True ys long sub obtain ym where ym: "build_year_map df (i + 1) ys [] = Inr ym"
        by (subst (asm) find_loop.simps) (auto split: sum.splits)
      show ?thesis
      proof (cases "ym = []")
        case True
        with "1.prems"(1) \<open>i < n_rows df - 1\<close> ys long sub ym
        have "find_loop df (i + 1) bs = Inr blocks"
          by (subst (asm) find_loop.simps) simp
        moreover from True have "\<not> ym \<noteq> []" by simp
        ultimately show ?thesis
          using "1.IH"(2) [OF \<open>i < n_rows df - 1\<close> ys long sub ym _ _ "1.prems"(2) later]
          by blast
      next
        case False
        with "1.prems"(1) \<open>i < n_rows df - 1\<close> ys long sub ym
        have run: "find_loop df (i + 1 + 1) (bs @ [(i, ym)]) = Inr blocks"
          by (subst (asm) find_loop.simps) simp
        have s: "sorted_wrt (\<lambda>b c. fst b + 2 \<le> fst c) (bs @ [(i, ym)])"
          using "1.prems"(2,3) by (simp add: sorted_wrt_append)
        have l: "\<forall>b \<in> set (bs @ [(i, ym)]). fst b + 2 \<le> i + 1 + 1"
          using "1.prems"(3) by auto
        from "1.IH"(1) [OF \<open>i < n_rows df - 1\<close> ys long sub ym False run s l]
        show ?thesis .
      qed
    qed
  qed
qed

lemma scan_years_tokens:
  "scan_years df i js = Inr ys \<Longrightarrow> (j, y) \<in> set ys \<Longrightarrow>
     \<exists>v. iat df i j = Inr v \<and> is_year_str (py_strip (py_str v)) = Inr (Some y)"
proof (induction js arbitrary: ys)
  case Nil
  then show ?case by simp
next
  case (Cons a js)
  then show ?case
    by (auto split: sum.splits option.splits)
qed

lemma scan_years_columns:
  "scan_years df i js = Inr ys \<Longrightarrow> distinct js \<Longrightarrow> distinct (map fst ys) \<and> fst ` set ys \<subseteq> set js"
proof (induction js arbitrary: ys)
  case Nil
  then show ?case by simp
next
  case (Cons a js)
  from Cons.prems(1) obtain rest yo where rest: "scan_years df i js = Inr rest"
    and ys: "ys = (case yo of None \<Rightarrow> rest | Some y \<Rightarrow> (a, y) # rest)"
    by (auto split: sum.splits)
  from Cons.IH [OF rest] Cons.prems(2) have "distinct (map fst rest)" "fst ` set rest \<subseteq> set js"
    by auto
  with ys Cons.prems(2) show ?case by (cases yo) auto
qed

lemma data_regions_disjoint:
  assumes "sorted_wrt (\<lambda>b c. fst b + 2 \<le> fst c) blocks"
    and "k < l" and "l < length blocks"
  shows "data_region df blocks k \<inter> data_region df blocks l = {}"
proof -
  have next_le: "fst (blocks ! (k + 1)) \<le> fst (blocks ! l)"
  proof (cases "k + 1 = l")
    case True
    then show ?thesis by simp
  next
    case False
    with assms(2) have "k + 1 < l" by simp
    from sorted_wrt_nth_less [OF assms(1) this assms(3)] show ?thesis by simp
  qed
  from assms(2,3) have "k + 1 < length blocks" by simp
  with next_le show ?thesis by (auto simp: data_region_def)
qed

lemma repeated_year_found:
  "find_header_blocks repeated_year = Inr [(0, [(2020, Some 3, None)])]"
  by (simp add: repeated_year_def ev ev_grid)

lemma repeated_year_tokens:
  "scan_years repeated_year 0 [1..<n_cols repeated_year] = Inr [(1, 2020), (2, 2020), (3, 2020)]"
  by (simp add: repeated_year_def ev ev_grid)

text \<open>
  Claim C1, as stated, fails: the anchor row of a block need not hold three different
  periods. On \<open>repeated_year\<close> the detector returns a block whose anchor row holds three
  year tokens, all of them 2020, so one period.
\<close>

theorem anchor_row_repeated_year:
  "find_header_blocks repeated_year = Inr [(0, [(2020, Some 3, None)])]
   \<and> scan_years repeated_year 0 [1..<n_cols repeated_year] = Inr [(1, 2020), (2, 2020), (3, 2020)]
   \<and> distinct_periods [(1, 2020), (2, 2020), (3, 2020)] = 1"
  using repeated_year_found repeated_year_tokens by (simp add: distinct_periods_def)


text \<open>
  Claim C1, amended. The blocks that the detector returns have strictly increasing anchor
  rows, two consecutive anchors at least two rows apart; the anchor row of every block
  holds year tokens in at least three different cells of the columns from 1 on (the
  periods in them may repeat); and the data regions of two different blocks share no row.
\<close>

theorem header_blocks_in_row_order:
  assumes "find_header_blocks df = Inr blocks"
  shows "sorted_wrt (\<lambda>b c. fst b < fst c \<and> fst b + 2 \<le> fst c) blocks
    \<and> (\<forall>(a, ym) \<in> set blocks. \<exists>ys.
          scan_years df a [1..<n_cols df] = Inr ys \<and> 3 \<le> length ys \<and> distinct (map fst ys)
        \<and> (\<forall>(j, y) \<in> set ys. 1 \<le> j \<and> j < n_cols df
              \<and> (\<exists>v. iat df a j = Inr v \<and> is_year_str (py_strip (py_str v)) = Inr (Some y))))
    \<and> (\<forall>k l. k < length blocks \<and> l < length blocks \<and> k \<noteq> l \<longrightarrow>
          data_region df blocks k \<inter> data_region df blocks l = {})"
proof (intro conjI allI impI)
  have sorted: "sorted_wrt (\<lambda>b c. fst b + 2 \<le> fst c) blocks"
    using find_loop_sorted [of df 0 "[]" blocks] assms by (simp add: find_header_blocks_def)
  then show "sorted_wrt (\<lambda>b c. fst b < fst c \<and> fst b + 2 \<le> fst c) blocks"
    by (rule sorted_wrt_mono_rel [rotated]) simp
  fix k l
  assume kl: "k < length blocks \<and> l < length blocks \<and> k \<noteq> l"
  then consider "k < l" | "l < k" by linarith
  then show "data_region df blocks k \<inter> data_region df blocks l = {}"
  proof cases
    case 1
    with kl show ?thesis using data_regions_disjoint [OF sorted, of k l df] by simp
  next
    case 2
    with kl show ?thesis using data_regions_disjoint [OF sorted, of l k df] by auto
  qed
next
  let ?Q = "\<lambda>(a, ym). \<exists>ys.
          scan_years df a [1..<n_cols df] = Inr ys \<and> 3 \<le> length ys \<and> distinct (map fst ys)
        \<and> (\<forall>(j, y) \<in> set ys. 1 \<le> j \<and> j < n_cols df
              \<and> (\<exists>v. iat df a j = Inr v \<and> is_year_str (py_strip (py_str v)) = Inr (Some y)))"
  have "list_all ?Q blocks"
  proof (rule find_loop_invariant [of df 0 "[]"])
    show "find_loop df 0 [] = Inr blocks" using assms by (simp add: find_header_blocks_def)
    show "list_all ?Q []" by simp
  next
    fix a ys ym
    assume ys: "scan_years df a [1..<n_cols df] = Inr ys" and long: "3 \<le> length ys"
    have cols: "distinct (map fst ys)" "fst ` set ys \<subseteq> set [1..<n_cols df]"
      using scan_years_columns [OF ys] by simp_all
    have "1 \<le> j \<and> j < n_cols df
        \<and> (\<exists>v. iat df a j = Inr v \<and> is_year_str (py_strip (py_str v)) = Inr (Some y))"
      if "(j, y) \<in> set ys" for j y
    proof -
      from that cols(2) have "j \<in> set [1..<n_cols df]" by force
      then show ?thesis using scan_years_tokens [OF ys that] by simp
    qed
    with ys long cols(1) show "?Q (a, ym)" by auto
  qed
  then show "\<forall>(a, ym) \<in> set blocks. \<exists>ys.
          scan_years df a [1..<n_cols df] = Inr ys \<and> 3 \<le> length ys \<and> distinct (map fst ys)
        \<and> (\<forall>(j, y) \<in> set ys. 1 \<le> j \<and> j < n_cols df
              \<and> (\<exists>v. iat df a j = Inr v \<and> is_year_str (py_strip (py_str v)) = Inr (Some y)))"
    by (simp add: list_all_iff)
qed

theorem header_blocks_in_row_order_witness:
  "find_header_blocks two_blocks =
     Inr [(0, [(2020, Some 1, Some 2), (2016, Some 3, Some 2), (2012, Some 3, None)]),
          (4, [(2008, Some 1, Some 2), (2004, Some 3, Some 2), (2000, Some 3, None)])]
   \<and> (\<exists>ys. scan_years two_blocks 0 [1..<n_cols two_blocks] = Inr ys \<and> 3 \<le> length ys)
   \<and> (\<exists>ys. scan_years two_blocks 4 [1..<n_cols two_blocks] = Inr ys \<and> 3 \<le> length ys)
   \<and> data_region two_blocks
        [(0, [(2020, Some 1, Some 2), (2016, Some 3, Some 2), (2012, Some 3, None)]),
         (4, [(2008, Some 1, Some 2), (2004, Some 3, Some 2), (2000, Some 3, None)])] 0
      \<inter> data_region two_blocks
        [(0, [(2020, Some 1, Some 2), (2016, Some 3, Some 2), (2012, Some 3, None)]),
         (4, [(2008, Some 1, Some 2), (2004, Some 3, Some 2), (2000, Some 3, None)])] 1 = {}"
proof -
  note main = header_blocks_in_row_order [OF two_blocks_found]
  from main have "\<exists>ys. scan_years two_blocks 0 [1..<n_cols two_blocks] = Inr ys \<and> 3 \<le> length ys"
    by fastforce
  moreover from main
  have "\<exists>ys. scan_years two_blocks 4 [1..<n_cols two_blocks] = Inr ys \<and> 3 \<le> length ys"
    by fastforce
  moreover from main have "data_region two_blocks
        [(0, [(2020, Some 1, Some 2), (2016, Some 3, Some 2), (2012, Some 3, None)]),
         (4, [(2008, Some 1, Some 2), (2004, Some 3, Some 2), (2000, Some 3, None)])] 0
      \<inter> data_region two_blocks
        [(0, [(2020, Some 1, Some 2), (2016, Some 3, Some 2), (2012, Some 3, None)]),
         (4, [(2008, Some 1, Some 2), (2004, Some 3, Some 2), (2000, Some 3, None)])] 1 = {}"
    by simp
  ultimately show ?thesis using two_blocks_found by blast
qed

section \<open>Trimming twice\<close>

lemma trim_ends:
  fixes P :: "'a \<Rightarrow> bool"
  defines "t \<equiv> \<lambda>s. rev (dropWhile P (rev (dropWhile P s)))"
  shows "t s = [] \<or> (\<not> P (hd (t s)) \<and> \<not> P (last (t s)))"
proof (cases "t s = []")
  case True
  then show ?thesis by simp
next
  case False
  define u where "u = dropWhile P s"
  define w where "w = dropWhile P (rev u)"
  have t: "t s = rev w" by (simp add: t_def u_def w_def)
  with False have w: "w \<noteq> []" by simp
  then have hw: "\<not> P (hd w)" unfolding w_def by (rule hd_dropWhile)
  from w have u: "u \<noteq> []" by (auto simp: w_def)
  then have hu: "\<not> P (hd u)" unfolding u_def by (rule hd_dropWhile)
  have "rev u = takeWhile P (rev u) @ w" by (simp add: w_def)
  with w have "last (rev u) = last w" by (metis last_appendR)
  with u have "last w = hd u" by (simp add: last_rev)
  with hu hw w show ?thesis by (simp add: t hd_rev last_rev)
qed

lemma trim_fixed:
  assumes "s = [] \<or> (\<not> P (hd s) \<and> \<not> P (last s))"
  shows "rev (dropWhile P (rev (dropWhile P s))) = s"
proof (cases "s = []")
  case True
  then show ?thesis by simp
next
  case False
  with assms have h: "\<not> P (hd s)" and l: "\<not> P (last s)" by simp_all
  from False h have "dropWhile P s = s" by (cases s) simp_all
  moreover from False l have "dropWhile P (rev s) = rev s"
    by (cases s rule: rev_cases) simp_all
  ultimately show ?thesis by simp
qed

lemma py_strip_idem: "py_strip (py_strip s) = py_strip s"
  unfolding py_strip_def by (rule trim_fixed) (rule trim_ends)

lemma c_strip_idem: "c_strip (c_strip s) = c_strip s"
  unfolding c_strip_def by (rule trim_fixed) (rule trim_ends)

lemma is_year_str_strip: "is_year_str (py_strip s) = is_year_str s"
  by (simp add: is_year_str_def py_strip_idem)

section \<open>Where the extraction of a block stops\<close>

lemma scan_years_count:
  "scan_years df i js = Inr ys \<Longrightarrow> years_here df i js = Inr (length ys)"
proof (induction js arbitrary: ys)
  case Nil
  then show ?case by simp
next
  case (Cons a js)
  then show ?case
    by (auto simp: is_year_str_strip split: sum.splits option.splits)
qed

lemma first_boundary_le: "r \<le> first_boundary df r"
proof (induction df r rule: first_boundary.induct)
  case (1 df r)
  then show ?case by (subst first_boundary.simps) auto
qed

lemma first_boundary_before:
  "r \<le> r' \<Longrightarrow> r' < first_boundary df r \<Longrightarrow> r' < n_rows df \<and> \<not> is_boundary df r'"
proof (induction df r rule: first_boundary.induct)
  case (1 df r)
  show ?case
  proof (cases "r < n_rows df \<and> \<not> is_boundary df r")
    case True
    then have eq: "first_boundary df r = first_boundary df (r + 1)"
      by (subst first_boundary.simps) simp
    show ?thesis
    proof (cases "r' = r")
      case True
      with \<open>r < n_rows df \<and> \<not> is_boundary df r\<close> show ?thesis by simp
    next
      case False
      with "1.prems" eq "1.IH" [OF True] show ?thesis by simp
    qed
  next
    case False
    then have "first_boundary df r = r" by (subst first_boundary.simps) auto
    with "1.prems" show ?thesis by simp
  qed
qed

lemma first_boundary_stop:
  "first_boundary df r < n_rows df \<Longrightarrow> is_boundary df (first_boundary df r)"
proof (induction df r rule: first_boundary.induct)
  case (1 df r)
  show ?case
  proof (cases "r < n_rows df \<and> \<not> is_boundary df r")
    case True
    then have eq: "first_boundary df r = first_boundary df (r + 1)"
      by (subst first_boundary.simps) simp
    with "1.prems" "1.IH" [OF True] show ?thesis by simp
  next
    case False
    then have "first_boundary df r = r" by (subst first_boundary.simps) auto
    with "1.prems" False show ?thesis by simp
  qed
qed

lemma collect_rows_Cons_Inr:
  "row_records df ym r = Inr recs \<Longrightarrow> collect_rows df ym rs = Inr later \<Longrightarrow>
     collect_rows df ym (r # rs) = Inr (recs @ later)"
  by simp

lemma parse_loop_collect:
  "parse_loop df ym r records = Inr recs \<Longrightarrow>
     \<exists>later. collect_rows df ym [r ..< first_boundary df r] = Inr later \<and> recs = records @ later"
proof (induction df ym r records rule: parse_loop.induct)
  case (1 df ym r records)
  show ?case
  proof (cases "r < n_rows df")
    case False
    then have "first_boundary df r = r" by (subst first_boundary.simps) auto
    with "1.prems" False show ?thesis by (simp add: parse_loop.simps)
  next
    case True
    from "1.prems" True obtain k where k: "years_here df r [1..<n_cols df] = Inr k"
      by (subst (asm) parse_loop.simps) (auto split: sum.splits)
    show ?thesis
    proof (cases "3 \<le> k")
      case True
      with k have "is_boundary df r" by (simp add: is_boundary_def)
      then have "first_boundary df r = r" by (subst first_boundary.simps) auto
      with "1.prems" \<open>r < n_rows df\<close> k True show ?thesis
        by (subst (asm) parse_loop.simps) auto
    next
      case False
      with k have nb: "\<not> is_boundary df r" by (simp add: is_boundary_def)
      with True have fb: "first_boundary df r = first_boundary df (r + 1)"
        by (subst first_boundary.simps) simp
      have "r < first_boundary df (r + 1)"
        using first_boundary_le [of "r + 1" df] by simp
      with fb have rows: "[r ..< first_boundary df r] = r # [r + 1 ..< first_boundary df (r + 1)]"
        by (simp add: upt_conv_Cons)
      from "1.prems" True k False obtain state_raw where raw: "iat df r 0 = Inr state_raw"
        by (subst (asm) parse_loop.simps) (auto split: sum.splits)
      define st where "st = state_of state_raw"
      consider (sep) "is_separator st" | (agg) "\<not> is_separator st" "is_aggregate st"
        | (data) "\<not> is_separator st" "\<not> is_aggregate st" by blast
      then show ?thesis
      proof cases
        case sep
        with "1.prems" True k False raw have "parse_loop df ym (r + 1) records = Inr recs"
          by (subst (asm) parse_loop.simps) (simp add: st_def)
        from "1.IH"(1) [OF True k False raw st_def sep this] obtain later where
          "collect_rows df ym [r + 1 ..< first_boundary df (r + 1)] = Inr later" "recs = records @ later"
          by blast
        moreover from raw sep have "row_records df ym r = Inr []"
          by (simp add: row_records_def st_def)
        ultimately show ?thesis by (simp add: rows)
      next
        case agg
        with "1.prems" True k False raw have "parse_loop df ym (r + 1) records = Inr recs"
          by (subst (asm) parse_loop.simps) (simp add: st_def)
        from "1.IH"(2) [OF True k False raw st_def agg this] obtain later where
          "collect_rows df ym [r + 1 ..< first_boundary df (r + 1)] = Inr later" "recs = records @ later"
          by blast
        moreover from raw agg have "row_records df ym r = Inr []"
          by (simp add: row_records_def st_def)
        ultimately show ?thesis by (simp add: rows)
      next
        case data
        with "1.prems" True k False raw obtain new where
          new: "emit_years df r st ym = Inr new" and
          run: "parse_loop df ym (r + 1) (records @ new) = Inr recs"
          by (subst (asm) parse_loop.simps) (auto simp: st_def split: sum.splits)
        from "1.IH"(3) [OF True k False raw st_def data new run] obtain later where
          "collect_rows df ym [r + 1 ..< first_boundary df (r + 1)] = Inr later"
          "recs = (records @ new) @ later"
          by blast
        moreover from raw data new have "row_records df ym r = Inr new"
          by (simp add: row_records_def st_def)
        ultimately show ?thesis by (simp add: rows)
      qed
    qed
  qed
qed

section \<open>The stop row of a detected block\<close>

lemma find_loop_anchors:
  "find_loop df i bs = Inr blocks \<Longrightarrow> \<exists>new. blocks = bs @ new \<and> anchors_from df i new"
proof (induction df i bs rule: find_loop.induct)
  case (1 df i bs)
  show ?case
  proof (cases "i < n_rows df - 1")
    case False
    with "1.prems" have "blocks = bs" by (simp add: find_loop.simps)
    moreover from False have "n_rows df - 1 \<le> first_boundary df i"
      using first_boundary_le [of i df] by simp
    ultimately show ?thesis by simp
  next
    case True
    then have row: "i < n_rows df" by simp
    from "1.prems"(1) True obtain ys where ys: "scan_years df i [1..<n_cols df] = Inr ys"
      by (subst (asm) find_loop.simps) (auto split: sum.splits)
    have count: "years_here df i [1..<n_cols df] = Inr (length ys)"
      by (rule scan_years_count [OF ys])
    show ?thesis
    proof (cases "3 \<le> length ys")
      case False
      with "1.prems" True ys have "find_loop df (i + 1) bs = Inr blocks"
        by (subst (asm) find_loop.simps) simp
      from "1.IH"(4) [OF True ys False this] obtain new where
        new: "blocks = bs @ new" "anchors_from df (i + 1) new" by blast
      from False count have "\<not> is_boundary df i" by (simp add: is_boundary_def)
      with row have "first_boundary df i = first_boundary df (i + 1)"
        by (subst first_boundary.simps) simp
      with new(2) have "anchors_from df i new" by (cases new) simp_all
      with new(1) show ?thesis by blast
    next
      case long: True
      have sub: "i + 1 < n_rows df" using True by simp
      from "1.prems"(1) True ys long sub obtain ym where ym: "build_year_map df (i + 1) ys [] = Inr ym"
        by (subst (asm) find_loop.simps) (auto split: sum.splits)
      from long have "set ys \<noteq> {}" by auto
      with build_year_map_keys [OF ym] have nonempty: "ym \<noteq> []" by auto
      with "1.prems"(1) True ys long sub ym
      have run: "find_loop df (i + 1 + 1) (bs @ [(i, ym)]) = Inr blocks"
        by (subst (asm) find_loop.simps) simp
      from "1.IH"(1) [OF True ys long sub ym nonempty run] obtain new where
        new: "blocks = (bs @ [(i, ym)]) @ new" "anchors_from df (i + 1 + 1) new" by blast
      from long count have "is_boundary df i" by (simp add: is_boundary_def)
      then have "first_boundary df i = i" by (subst first_boundary.simps) simp
      with new(2) have "anchors_from df i ((i, ym) # new)" by (simp add: add.assoc)
      with new(1) show ?thesis by auto
    qed
  qed
qed

lemma anchors_from_next:
  "anchors_from df i blocks \<Longrightarrow> k + 1 < length blocks \<Longrightarrow>
     first_boundary df (fst (blocks ! k) + 2) = fst (blocks ! (k + 1))"
proof (induction blocks arbitrary: i k)
  case Nil
  then show ?case by simp
next
  case (Cons b blocks)
  show ?case
  proof (cases k)
    case 0
    with Cons.prems show ?thesis by (cases blocks) simp_all
  next
    case (Suc n)
    with Cons.prems Cons.IH [of "fst b + 2" n] show ?thesis by simp
  qed
qed

lemma anchors_from_last:
  "anchors_from df i blocks \<Longrightarrow> blocks \<noteq> [] \<Longrightarrow>
     n_rows df - 1 \<le> first_boundary df (fst (last blocks) + 2)"
proof (induction blocks arbitrary: i)
  case Nil
  then show ?case by simp
next
  case (Cons b blocks)
  then show ?case by (cases "blocks = []") auto
qed

text \<open>
  Claim C2. The extraction of a block with anchor row \<open>h\<close> processes the rows from
  \<open>h + 2\<close> on, one after the other, up to the first row that holds at least three year
  tokens in the columns from 1 on, and returns exactly the records of those rows: nothing
  comes from that row or a later one, and every row before it is processed; without such
  a row it goes to the end of the frame. For a block that the detector found, that row is
  the anchor row of the next block; after the last block it can only be the last row of
  the frame.
\<close>

theorem extraction_stops_at_first_boundary:
  "(\<forall>recs. parse_block df h ym = Inr recs \<longrightarrow>
      collect_rows df ym [h + 2 ..< first_boundary df (h + 2)] = Inr recs)
   \<and> (\<forall>r. h + 2 \<le> r \<and> r < first_boundary df (h + 2) \<longrightarrow> r < n_rows df \<and> \<not> is_boundary df r)
   \<and> (first_boundary df (h + 2) < n_rows df \<longrightarrow> is_boundary df (first_boundary df (h + 2)))
   \<and> (\<forall>blocks k. find_header_blocks df = Inr blocks \<and> k + 1 < length blocks \<and> h = fst (blocks ! k) \<longrightarrow>
        first_boundary df (h + 2) = fst (blocks ! (k + 1)))
   \<and> (\<forall>blocks. find_header_blocks df = Inr blocks \<and> blocks \<noteq> [] \<and> h = fst (last blocks) \<longrightarrow>
        n_rows df - 1 \<le> first_boundary df (h + 2))"
proof (intro conjI allI impI)
  fix recs
  assume "parse_block df h ym = Inr recs"
  then show "collect_rows df ym [h + 2 ..< first_boundary df (h + 2)] = Inr recs"
    using parse_loop_collect [of df ym "h + 2" "[]" recs] by (simp add: parse_block_def)
next
  fix r
  assume "h + 2 \<le> r \<and> r < first_boundary df (h + 2)"
  then show "r < n_rows df" "\<not> is_boundary df r"
    using first_boundary_before [of "h + 2" r df] by simp_all
next
  assume "first_boundary df (h + 2) < n_rows df"
  then show "is_boundary df (first_boundary df (h + 2))" by (rule first_boundary_stop)
next
  fix blocks k
  assume a: "find_header_blocks df = Inr blocks \<and> k + 1 < length blocks \<and> h = fst (blocks ! k)"
  then have "anchors_from df 0 blocks"
    using find_loop_anchors [of df 0 "[]" blocks] by (simp add: find_header_blocks_def)
  with a show "first_boundary df (h + 2) = fst (blocks ! (k + 1))"
    using anchors_from_next [of df 0 blocks k] by simp
next
  fix blocks
  assume a: "find_header_blocks df = Inr blocks \<and> blocks \<noteq> [] \<and> h = fst (last blocks)"
  then have "anchors_from df 0 blocks"
    using find_loop_anchors [of df 0 "[]" blocks] by (simp add: find_header_blocks_def)
  with a show "n_rows df - 1 \<le> first_boundary df (h + 2)"
    using anchors_from_last [of df 0 blocks] by simp
qed

lemma two_blocks_rows:
  "n_rows two_blocks = 7"
  "is_boundary two_blocks 4" "\<not> is_boundary two_blocks 2" "\<not> is_boundary two_blocks 3"
  "\<not> is_boundary two_blocks 6"
  by (simp_all add: two_blocks_def is_boundary_def iat_def n_rows_def n_cols_def upt_conv_Cons ev)

lemma two_blocks_boundaries:
  "first_boundary two_blocks 2 = 4" "first_boundary two_blocks 6 = 7"
proof -
  have "first_boundary two_blocks 4 = 4"
    by (subst first_boundary.simps) (simp add: two_blocks_rows)
  then have "first_boundary two_blocks 3 = 4"
    by (subst first_boundary.simps) (simp add: two_blocks_rows)
  then show "first_boundary two_blocks 2 = 4"
    by (subst first_boundary.simps) (simp add: two_blocks_rows)
  have "first_boundary two_blocks 7 = 7"
    by (subst first_boundary.simps) (simp add: two_blocks_rows)
  then show "first_boundary two_blocks 6 = 7"
    by (subst first_boundary.simps) (simp add: two_blocks_rows)
qed

theorem extraction_stops_at_first_boundary_witness:
  "parse_block two_blocks 0 [(2020, Some 1, Some 2), (2016, Some 3, Some 2), (2012, Some 3, None)] =
     Inr [\<lparr>year = 2020, state = ascii ''Alabama'', turnout = Fin False 591 (- 1)\<rparr>,
          \<lparr>year = 2016, state = ascii ''Alabama'', turnout = Fin False 591 (- 1)\<rparr>,
          \<lparr>year = 2012, state = ascii ''Alabama'', turnout = Fin False 5 1\<rparr>]
   \<and> first_boundary two_blocks 2 = 4
   \<and> collect_rows two_blocks [(2020, Some 1, Some 2), (2016, Some 3, Some 2), (2012, Some 3, None)]
        [2 ..< 4] =
     Inr [\<lparr>year = 2020, state = ascii ''Alabama'', turnout = Fin False 591 (- 1)\<rparr>,
          \<lparr>year = 2016, state = ascii ''Alabama'', turnout = Fin False 591 (- 1)\<rparr>,
          \<lparr>year = 2012, state = ascii ''Alabama'', turnout = Fin False 5 1\<rparr>]
   \<and> \<not> is_boundary two_blocks 3 \<and> is_boundary two_blocks 4
   \<and> n_rows two_blocks - 1 \<le> first_boundary two_blocks 6"
proof -
  let ?ym = "[(2020, Some 1, Some 2), (2016, Some 3, Some 2), (2012, Some 3, None)]"
  let ?ym' = "[(2008, Some 1, Some 2), (2004, Some 3, Some 2), (2000, Some 3, None)]"
  have two: "0 + 2 = (2::nat)" and six: "4 + 2 = (6::nat)" by simp_all
  note first = extraction_stops_at_first_boundary [of two_blocks 0 ?ym, unfolded two]
  note second = extraction_stops_at_first_boundary [of two_blocks 4 ?ym', unfolded six]
  from first two_blocks_first have "collect_rows two_blocks ?ym [2 ..< first_boundary two_blocks 2] =
     Inr [\<lparr>year = 2020, state = ascii ''Alabama'', turnout = Fin False 591 (- 1)\<rparr>,
          \<lparr>year = 2016, state = ascii ''Alabama'', turnout = Fin False 591 (- 1)\<rparr>,
          \<lparr>year = 2012, state = ascii ''Alabama'', turnout = Fin False 5 1\<rparr>]"
    by blast
  moreover from first two_blocks_boundaries(1) have "\<not> is_boundary two_blocks 3"
    by auto
  moreover from first two_blocks_boundaries(1) two_blocks_rows(1)
  have "is_boundary two_blocks 4" by auto
  moreover from first two_blocks_found have "first_boundary two_blocks 2 = 4"
    by (auto simp del: One_nat_def)
  moreover from second two_blocks_found have "n_rows two_blocks - 1 \<le> first_boundary two_blocks 6"
    by (auto simp del: One_nat_def)
  ultimately show ?thesis
    using two_blocks_first by (simp del: One_nat_def)
qed

section \<open>Rows that are skipped\<close>

lemma py_lower_append: "py_lower (a @ b) = py_lower a @ py_lower b"
  by (simp add: py_lower_def)

lemma startswith_table_lower:
  assumes "startswith st (ascii ''table'')"
  shows "startswith (py_lower st) (ascii ''table'')"
proof -
  from assms have "st = ascii ''table'' @ drop (length (ascii ''table'')) st"
    unfolding startswith_def by (metis append_take_drop_id)
  then have "py_lower st = py_lower (ascii ''table'') @ py_lower (drop (length (ascii ''table'')) st)"
    by (metis py_lower_append)
  moreover have "py_lower (ascii ''table'') = ascii ''table''"
    by (simp add: ev)
  ultimately show ?thesis by (simp add: startswith_def ascii_def)
qed

lemma collect_rows_append:
  "collect_rows df ym (xs @ ys) = Inr recs \<Longrightarrow>
     \<exists>a b. collect_rows df ym xs = Inr a \<and> collect_rows df ym ys = Inr b \<and> recs = a @ b"
proof (induction xs arbitrary: recs)
  case Nil
  then show ?case by simp
next
  case (Cons x xs)
  from Cons.prems obtain new later where new: "row_records df ym x = Inr new"
    and later: "collect_rows df ym (xs @ ys) = Inr later" and recs: "recs = new @ later"
    by (auto split: sum.splits)
  from Cons.IH [OF later] obtain a b where
    "collect_rows df ym xs = Inr a" "collect_rows df ym ys = Inr b" "later = a @ b" by blast
  with new recs show ?case by simp
qed

text \<open>
  Claim C5. Take a block whose extraction returns the records \<open>recs\<close>, and a row \<open>r\<close> of
  the block (from two below the anchor row \<open>h\<close>, before the first boundary row) whose
  trimmed label in column 0 is empty, is \<open>nan\<close>, begins with \<open>table\<close> or is
  \<open>united states\<close>, each as it stands or once lowered. That row adds no record and does
  not end the extraction: \<open>recs\<close> is what the rows before \<open>r\<close> give, followed by what the
  rows after \<open>r\<close> give, up to the boundary row.
\<close>

theorem skipped_row_emits_nothing:
  assumes "parse_block df h ym = Inr recs"
    and "h + 2 \<le> r" and "r < first_boundary df (h + 2)"
    and "iat df r 0 = Inr state_raw"
    and "state_of state_raw = []
         \<or> state_of state_raw = ascii ''nan'' \<or> py_lower (state_of state_raw) = ascii ''nan''
         \<or> startswith (state_of state_raw) (ascii ''table'')
         \<or> startswith (py_lower (state_of state_raw)) (ascii ''table'')
         \<or> state_of state_raw = ascii ''united states''
         \<or> py_lower (state_of state_raw) = py_lower (ascii ''united states'')"
  shows "\<exists>before after.
           collect_rows df ym [h + 2 ..< r] = Inr before
         \<and> collect_rows df ym [r + 1 ..< first_boundary df (h + 2)] = Inr after
         \<and> recs = before @ after"
proof -
  have nan: "py_lower (ascii ''nan'') = ascii ''nan''" by (simp add: ev)
  have us: "py_lower (ascii ''united states'') = ascii ''united states''" by (simp add: ev)
  from assms(5) have "is_separator (state_of state_raw) \<or> is_aggregate (state_of state_raw)"
    using startswith_table_lower nan us by (auto simp: is_separator_def is_aggregate_def)
  with assms(4) have row: "row_records df ym r = Inr []"
    by (simp add: row_records_def)
  from assms(1) have all: "collect_rows df ym [h + 2 ..< first_boundary df (h + 2)] = Inr recs"
    using parse_loop_collect [of df ym "h + 2" "[]" recs] by (simp add: parse_block_def)
  from assms(2,3) have "[h + 2 ..< first_boundary df (h + 2)] =
      [h + 2 ..< r] @ r # [r + 1 ..< first_boundary df (h + 2)]"
    by (metis Suc_eq_plus1 le_add_diff_inverse less_imp_le_nat upt_add_eq_append upt_conv_Cons)
  with all have "collect_rows df ym ([h + 2 ..< r] @ r # [r + 1 ..< first_boundary df (h + 2)]) = Inr recs"
    by simp
  from collect_rows_append [OF this] obtain before rest where
    before: "collect_rows df ym [h + 2 ..< r] = Inr before"
    and rest: "collect_rows df ym (r # [r + 1 ..< first_boundary df (h + 2)]) = Inr rest"
    and recs: "recs = before @ rest" by blast
  from rest row obtain after where
    "collect_rows df ym [r + 1 ..< first_boundary df (h + 2)] = Inr after" "rest = after"
    by (auto split: sum.splits)
  with before recs show ?thesis by blast
qed

lemma skip_rows_found:
  "find_header_blocks skip_rows = Inr [(0, [(2020, Some 1, None), (2016, Some 2, None), (2012, Some 3, None)])]"
  by (simp add: skip_rows_def ev ev_grid)

lemma skip_rows_block:
  "parse_block skip_rows 0 [(2020, Some 1, None), (2016, Some 2, None), (2012, Some 3, None)] =
     Inr [\<lparr>year = 2020, state = ascii ''Alabama'', turnout = Fin False 636 (- 1)\<rparr>,
          \<lparr>year = 2016, state = ascii ''Alabama'', turnout = Fin False 591 (- 1)\<rparr>,
          \<lparr>year = 2012, state = ascii ''Alabama'', turnout = Fin False 5 1\<rparr>]"
  by (simp add: skip_rows_def ev ev_grid)

lemma skip_rows_rows:
  "n_rows skip_rows = 7"
  "\<not> is_boundary skip_rows 2" "\<not> is_boundary skip_rows 3" "\<not> is_boundary skip_rows 4"
  "\<not> is_boundary skip_rows 5" "\<not> is_boundary skip_rows 6"
  by (simp_all add: skip_rows_def is_boundary_def iat_def n_rows_def n_cols_def upt_conv_Cons ev)

lemma skip_rows_boundary: "first_boundary skip_rows 2 = 7"
proof -
  have "first_boundary skip_rows 7 = 7"
    by (subst first_boundary.simps) (simp add: skip_rows_rows)
  then have "first_boundary skip_rows 6 = 7"
    by (subst first_boundary.simps) (simp add: skip_rows_rows)
  then have "first_boundary skip_rows 5 = 7"
    by (subst first_boundary.simps) (simp add: skip_rows_rows)
  then have "first_boundary skip_rows 4 = 7"
    by (subst first_boundary.simps) (simp add: skip_rows_rows)
  then have "first_boundary skip_rows 3 = 7"
    by (subst first_boundary.simps) (simp add: skip_rows_rows)
  then show ?thesis
    by (subst first_boundary.simps) (simp add: skip_rows_rows)
qed

lemma skip_rows_labels:
  "iat skip_rows 2 0 = Inr (CStr (ascii ''Table 2. Reported voting''))"
  "iat skip_rows 3 0 = Inr (CFloat NaN)"
  "iat skip_rows 4 0 = Inr (CStr (ascii ''  ''))"
  "iat skip_rows 5 0 = Inr (CStr (ascii ''UNITED STATES''))"
  by (simp_all add: skip_rows_def iat_def)

lemma skip_rows_states:
  "startswith (py_lower (state_of (CStr (ascii ''Table 2. Reported voting'')))) (ascii ''table'')"
  "state_of (CFloat NaN) = ascii ''nan''"
  "state_of (CStr (ascii ''  '')) = []"
  "py_lower (state_of (CStr (ascii ''UNITED STATES''))) = py_lower (ascii ''united states'')"
  by (simp_all add: state_of_def ev)

theorem skipped_row_emits_nothing_witness:
  "parse_block skip_rows 0 [(2020, Some 1, None), (2016, Some 2, None), (2012, Some 3, None)] =
     Inr [\<lparr>year = 2020, state = ascii ''Alabama'', turnout = Fin False 636 (- 1)\<rparr>,
            \<lparr>year = 2016, state = ascii ''Alabama'', turnout = Fin False 591 (- 1)\<rparr>,
            \<lparr>year = 2012, state = ascii ''Alabama'', turnout = Fin False 5 1\<rparr>]
   \<and> first_boundary skip_rows 2 = 7
   \<and> iat skip_rows 2 0 = Inr (CStr (ascii ''Table 2. Reported voting''))
   \<and> startswith (py_lower (state_of (CStr (ascii ''Table 2. Reported voting'')))) (ascii ''table'')
   \<and> (\<exists>before after.
          collect_rows skip_rows [(2020, Some 1, None), (2016, Some 2, None), (2012, Some 3, None)] [2 ..< 2] = Inr before
        \<and> collect_rows skip_rows [(2020, Some 1, None), (2016, Some 2, None), (2012, Some 3, None)]
            [2 + 1 ..< first_boundary skip_rows 2] = Inr after
        \<and> [\<lparr>year = 2020, state = ascii ''Alabama'', turnout = Fin False 636 (- 1)\<rparr>,
            \<lparr>year = 2016, state = ascii ''Alabama'', turnout = Fin False 591 (- 1)\<rparr>,
            \<lparr>year = 2012, state = ascii ''Alabama'', turnout = Fin False 5 1\<rparr>] = before @ after)
   \<and> iat skip_rows 3 0 = Inr (CFloat NaN) \<and> state_of (CFloat NaN) = ascii ''nan''
   \<and> (\<exists>before after.
          collect_rows skip_rows [(2020, Some 1, None), (2016, Some 2, None), (2012, Some 3, None)] [2 ..< 3] = Inr before
        \<and> collect_rows skip_rows [(2020, Some 1, None), (2016, Some 2, None), (2012, Some 3, None)]
            [3 + 1 ..< first_boundary skip_rows 2] = Inr after
        \<and> [\<lparr>year = 2020, state = ascii ''Alabama'', turnout = Fin False 636 (- 1)\<rparr>,
            \<lparr>year = 2016, state = ascii ''Alabama'', turnout = Fin False 591 (- 1)\<rparr>,
            \<lparr>year = 2012, state = ascii ''Alabama'', turnout = Fin False 5 1\<rparr>] = before @ after)
   \<and> iat skip_rows 4 0 = Inr (CStr (ascii ''  '')) \<and> state_of (CStr (ascii ''  '')) = []
   \<and> (\<exists>before after.
          collect_rows skip_rows [(2020, Some 1, None), (2016, Some 2, None), (2012, Some 3, None)] [2 ..< 4] = Inr before
        \<and> collect_rows skip_rows [(2020, Some 1, None), (2016, Some 2, None), (2012, Some 3, None)]
            [4 + 1 ..< first_boundary skip_rows 2] = Inr after
        \<and> [\<lparr>year = 2020, state = ascii ''Alabama'', turnout = Fin False 636 (- 1)\<rparr>,
            \<lparr>year = 2016, state = ascii ''Alabama'', turnout = Fin False 591 (- 1)\<rparr>,
            \<lparr>year = 2012, state = ascii ''Alabama'', turnout = Fin False 5 1\<rparr>] = before @ after)
   \<and> iat skip_rows 5 0 = Inr (CStr (ascii ''UNITED STATES''))
   \<and> py_lower (state_of (CStr (ascii ''UNITED STATES''))) = py_lower (ascii ''united states'')
   \<and> (\<exists>before after.
          collect_rows skip_rows [(2020, Some 1, None), (2016, Some 2, None), (2012, Some 3, None)] [2 ..< 5] = Inr before
        \<and> collect_rows skip_rows [(2020, Some 1, None), (2016, Some 2, None), (2012, Some 3, None)]
            [5 + 1 ..< first_boundary skip_rows 2] = Inr after
        \<and> [\<lparr>year = 2020, state = ascii ''Alabama'', turnout = Fin False 636 (- 1)\<rparr>,
            \<lparr>year = 2016, state = ascii ''Alabama'', turnout = Fin False 591 (- 1)\<rparr>,
            \<lparr>year = 2012, state = ascii ''Alabama'', turnout = Fin False 5 1\<rparr>] = before @ after)"
proof -
  have two: "0 + 2 = (2::nat)" by simp
  note main = skipped_row_emits_nothing [OF skip_rows_block, unfolded two]
  have r2: "\<exists>before after.
          collect_rows skip_rows [(2020, Some 1, None), (2016, Some 2, None), (2012, Some 3, None)] [2 ..< 2] = Inr before
        \<and> collect_rows skip_rows [(2020, Some 1, None), (2016, Some 2, None), (2012, Some 3, None)]
            [2 + 1 ..< first_boundary skip_rows 2] = Inr after
        \<and> [\<lparr>year = 2020, state = ascii ''Alabama'', turnout = Fin False 636 (- 1)\<rparr>,
            \<lparr>year = 2016, state = ascii ''Alabama'', turnout = Fin False 591 (- 1)\<rparr>,
            \<lparr>year = 2012, state = ascii ''Alabama'', turnout = Fin False 5 1\<rparr>] = before @ after"
    by (rule main [OF _ _ skip_rows_labels(1)]) (simp_all add: skip_rows_boundary skip_rows_states)
  have r3: "\<exists>before after.
          collect_rows skip_rows [(2020, Some 1, None), (2016, Some 2, None), (2012, Some 3, None)] [2 ..< 3] = Inr before
        \<and> collect_rows skip_rows [(2020, Some 1, None), (2016, Some 2, None), (2012, Some 3, None)]
            [3 + 1 ..< first_boundary skip_rows 2] = Inr after
        \<and> [\<lparr>year = 2020, state = ascii ''Alabama'', turnout = Fin False 636 (- 1)\<rparr>,
            \<lparr>year = 2016, state = ascii ''Alabama'', turnout = Fin False 591 (- 1)\<rparr>,
            \<lparr>year = 2012, state = ascii ''Alabama'', turnout = Fin False 5 1\<rparr>] = before @ after"
    by (rule main [OF _ _ skip_rows_labels(2)]) (simp_all add: skip_rows_boundary skip_rows_states)
  have r4: "\<exists>before after.
          collect_rows skip_rows [(2020, Some 1, None), (2016, Some 2, None), (2012, Some 3, None)] [2 ..< 4] = Inr before
        \<and> collect_rows skip_rows [(2020, Some 1, None), (2016, Some 2, None), (2012, Some 3, None)]
            [4 + 1 ..< first_boundary skip_rows 2] = Inr after
        \<and> [\<lparr>year = 2020, state = ascii ''Alabama'', turnout = Fin False 636 (- 1)\<rparr>,
            \<lparr>year = 2016, state = ascii ''Alabama'', turnout = Fin False 591 (- 1)\<rparr>,
            \<lparr>year = 2012, state = ascii ''Alabama'', turnout = Fin False 5 1\<rparr>] = before @ after"
    by (rule main [OF _ _ skip_rows_labels(3)]) (simp_all add: skip_rows_boundary skip_rows_states)
  have r5: "\<exists>before after.
          collect_rows skip_rows [(2020, Some 1, None), (2016, Some 2, None), (2012, Some 3, None)] [2 ..< 5] = Inr before
        \<and> collect_rows skip_rows [(2020, Some 1, None), (2016, Some 2, None), (2012, Some 3, None)]
            [5 + 1 ..< first_boundary skip_rows 2] = Inr after
        \<and> [\<lparr>year = 2020, state = ascii ''Alabama'', turnout = Fin False 636 (- 1)\<rparr>,
            \<lparr>year = 2016, state = ascii ''Alabama'', turnout = Fin False 591 (- 1)\<rparr>,
            \<lparr>year = 2012, state = ascii ''Alabama'', turnout = Fin False 5 1\<rparr>] = before @ after"
    by (rule main [OF _ _ skip_rows_labels(4)]) (simp_all add: skip_rows_boundary skip_rows_states)
  from r2 r3 r4 r5 skip_rows_block skip_rows_boundary skip_rows_labels skip_rows_states
  show ?thesis by blast
qed

section \<open>The citizen column is preferred\<close>

lemma resolve_citizen_total:
  "resolve [CitizenVariant, TotalVariant] (total_idx, citizen_idx) =
     (if citizen_idx \<noteq> None then citizen_idx else total_idx)"
  by (cases citizen_idx; cases total_idx) (simp_all add: variant_col_def)

lemma emit_years_resolve:
  "emit_years df r st ym = Inr recs \<Longrightarrow>
     recs = concat (map (\<lambda>(y, cols). cell_record df r st y (resolve [CitizenVariant, TotalVariant] cols)) ym)"
proof (induction df r st ym arbitrary: recs rule: emit_years.induct)
  case (1 df r st)
  then show ?case by simp
next
  case (2 df r st y total_idx citizen_idx rest)
  show ?case
  proof (cases "if citizen_idx \<noteq> None then citizen_idx else total_idx")
    case None
    with "2.prems" have "emit_years df r st rest = Inr recs" by (simp add: Let_def)
    from "2.IH"(1) [OF refl None this] None show ?thesis
      by (simp add: resolve_citizen_total cell_record_def del: resolve.simps)
  next
    case (Some c)
    show ?thesis
    proof (cases "n_cols df \<le> c")
      case True
      with "2.prems" Some have "emit_years df r st rest = Inr recs" by (simp add: Let_def)
      from "2.IH"(2) [OF refl Some True this] Some True show ?thesis
        by (simp add: resolve_citizen_total cell_record_def del: resolve.simps)
    next
      case False
      from "2.prems" Some False obtain v where v: "iat df r c = Inr v"
        by (auto simp: Let_def split: sum.splits)
      from "2.prems" Some False v obtain t where t: "clean_percentage_like v = Inr t"
        by (auto simp: Let_def split: sum.splits)
      show ?thesis
      proof (cases t)
        case None
        with "2.prems" Some False v t have "emit_years df r st rest = Inr recs"
          by (simp add: Let_def)
        from "2.IH"(3) [OF refl Some False v t None this] Some False v t None
        show ?thesis by (simp add: resolve_citizen_total cell_record_def del: resolve.simps)
      next
        case (Some x)
        with "2.prems" \<open>(if citizen_idx \<noteq> None then citizen_idx else total_idx) = Some c\<close> False v t
        obtain later where later: "emit_years df r st rest = Inr later"
          and recs: "recs = \<lparr>year = y, state = st, turnout = x\<rparr> # later"
          by (auto simp: Let_def split: sum.splits)
        from "2.IH"(4) [OF refl \<open>(if citizen_idx \<noteq> None then citizen_idx else total_idx) = Some c\<close>
            False v t Some later]
          \<open>(if citizen_idx \<noteq> None then citizen_idx else total_idx) = Some c\<close> False v t Some recs
        show ?thesis by (simp add: resolve_citizen_total cell_record_def del: resolve.simps)
      qed
    qed
  qed
qed

lemma row_records_resolved:
  assumes "row_records df ym r = Inr recs"
  shows "recs = resolved_records [CitizenVariant, TotalVariant] df ym r"
proof -
  from assms obtain state_raw where raw: "iat df r 0 = Inr state_raw"
    by (auto simp: row_records_def split: sum.splits)
  show ?thesis
  proof (cases "is_separator (state_of state_raw) \<or> is_aggregate (state_of state_raw)")
    case True
    with assms raw show ?thesis by (simp add: row_records_def resolved_records_def)
  next
    case False
    with assms raw have "emit_years df r (state_of state_raw) ym = Inr recs"
      by (simp add: row_records_def)
    from emit_years_resolve [OF this] False raw show ?thesis
      by (simp add: resolved_records_def del: resolve.simps)
  qed
qed

lemma collect_rows_resolved:
  "collect_rows df ym rs = Inr recs \<Longrightarrow>
     recs = concat (map (resolved_records [CitizenVariant, TotalVariant] df ym) rs)"
proof (induction rs arbitrary: recs)
  case Nil
  then show ?case by simp
next
  case (Cons r rs)
  from Cons.prems obtain new later where new: "row_records df ym r = Inr new"
    and later: "collect_rows df ym rs = Inr later" and recs: "recs = new @ later"
    by (auto split: sum.splits)
  from row_records_resolved [OF new] Cons.IH [OF later] recs show ?case by simp
qed

lemma dict_set_entries:
  "(k', v') \<in> set (dict_set m k v) \<Longrightarrow> (k', v') \<in> set m \<or> (k', v') = (k, v)"
  by (induction m k v rule: dict_set.induct) (auto split: if_splits)

lemma build_year_map_entries:
  "build_year_map df sub_r ys ym = Inr ym' \<Longrightarrow> (y, cols) \<in> set ym' \<Longrightarrow>
     (y, cols) \<in> set ym \<or>
     (\<exists>j sj sj1. (j, y) \<in> set ys \<and> sub_label df sub_r j = Inr sj
        \<and> sub_label df sub_r (j + 1) = Inr sj1 \<and> cols = year_cols sj sj1 j)"
proof (induction ys arbitrary: ym)
  case Nil
  then show ?case by simp
next
  case (Cons p ys)
  obtain j0 y0 where p: "p = (j0, y0)" by (cases p)
  from Cons.prems(1) p obtain sj sj1 where
    sj: "sub_label df sub_r j0 = Inr sj" and sj1: "sub_label df sub_r (j0 + 1) = Inr sj1"
    and run: "build_year_map df sub_r ys (dict_set ym y0 (year_cols sj sj1 j0)) = Inr ym'"
    by (auto split: sum.splits)
  from Cons.IH [OF run Cons.prems(2)] show ?case
  proof
    assume "(y, cols) \<in> set (dict_set ym y0 (year_cols sj sj1 j0))"
    from dict_set_entries [OF this] show ?thesis
    proof
      assume "(y, cols) \<in> set ym"
      then show ?thesis by simp
    next
      assume "(y, cols) = (y0, year_cols sj sj1 j0)"
      with sj sj1 p show ?thesis by auto
    qed
  next
    assume "\<exists>j sj sj1. (j, y) \<in> set ys \<and> sub_label df sub_r j = Inr sj
        \<and> sub_label df sub_r (j + 1) = Inr sj1 \<and> cols = year_cols sj sj1 j"
    then show ?thesis by auto
  qed
qed

lemma detected_year_cols:
  assumes "find_header_blocks df = Inr blocks" and "(h, ym) \<in> set blocks" and "(y, cols) \<in> set ym"
  shows "\<exists>ys j sj sj1. scan_years df h [1..<n_cols df] = Inr ys \<and> (j, y) \<in> set ys
           \<and> sub_label df (h + 1) j = Inr sj \<and> sub_label df (h + 1) (j + 1) = Inr sj1
           \<and> cols = year_cols sj sj1 j"
proof -
  define Q where "Q = (\<lambda>(a, m). \<forall>y cols. (y, cols) \<in> set m \<longrightarrow>
      (\<exists>ys j sj sj1. scan_years df a [1..<n_cols df] = Inr ys \<and> (j, y) \<in> set ys
           \<and> sub_label df (a + 1) j = Inr sj \<and> sub_label df (a + 1) (j + 1) = Inr sj1
           \<and> cols = year_cols sj sj1 j))"
  have "list_all Q blocks"
  proof (rule find_loop_invariant [where i = 0 and bs = "[]" and df = df])
    show "find_loop df 0 [] = Inr blocks" using assms(1) by (simp add: find_header_blocks_def)
    show "list_all Q []" by simp
    fix a ys m
    assume ys: "scan_years df a [1..<n_cols df] = Inr ys"
      and m: "build_year_map df (a + 1) ys [] = Inr m"
    show "Q (a, m)"
      unfolding Q_def using build_year_map_entries [OF m] ys by fastforce
  qed
  with assms(2) have "Q (h, ym)" by (simp add: list_all_iff)
  with assms(3) show ?thesis unfolding Q_def by blast
qed

text \<open>
  Claim C6. The records that the extraction of a block returns are, for the rows of the
  block in turn, those the specification's resolver gives under the preference order
  citizen, total: nothing for a skipped row, and for a data row, for every period of the
  year map in turn, the record of the citizen column when the period has one, also when
  it has a total column as well, else of the total column, and no record when it has
  neither. In a block that the detector found, every period of the year map has its two
  columns from the sub-header texts, lowered and trimmed, under a year token of the
  anchor row and in the next column; it has a citizen column when one of the two starts
  with \<open>citizen\<close>, as \<open>Citizen, VEP\<close> does.
\<close>

theorem citizen_column_preferred:
  "(parse_block df h ym = Inr recs \<longrightarrow>
      recs = concat (map (resolved_records [CitizenVariant, TotalVariant] df ym)
                       [h + 2 ..< first_boundary df (h + 2)]))
   \<and> (find_header_blocks df = Inr blocks \<and> (h, ym) \<in> set blocks \<and> (y, cols) \<in> set ym \<longrightarrow>
        (\<exists>ys j sj sj1. scan_years df h [1..<n_cols df] = Inr ys \<and> (j, y) \<in> set ys
           \<and> sub_label df (h + 1) j = Inr sj \<and> sub_label df (h + 1) (j + 1) = Inr sj1
           \<and> cols = year_cols sj sj1 j))
   \<and> (\<forall>t c. resolve [CitizenVariant, TotalVariant] (t, Some c) = Some c)
   \<and> (\<forall>t. resolve [CitizenVariant, TotalVariant] (Some t, None) = Some t)
   \<and> resolve [CitizenVariant, TotalVariant] (None, None) = None
   \<and> cell_record df r st y None = []
   \<and> (startswith sub_here (ascii ''citizen'') \<longrightarrow> snd (year_cols sub_here sub_next k) = Some k)
   \<and> (\<not> startswith sub_here (ascii ''citizen'') \<and> startswith sub_next (ascii ''citizen'') \<longrightarrow>
        snd (year_cols sub_here sub_next k) = Some (k + 1))
   \<and> (\<not> startswith sub_here (ascii ''citizen'') \<and> \<not> startswith sub_next (ascii ''citizen'') \<longrightarrow>
        snd (year_cols sub_here sub_next k) = None)
   \<and> startswith (py_lower (py_strip (py_str (CStr (ascii ''Citizen, VEP''))))) (ascii ''citizen'')"
proof (intro conjI impI allI)
  assume "parse_block df h ym = Inr recs"
  then have "collect_rows df ym [h + 2 ..< first_boundary df (h + 2)] = Inr recs"
    using parse_loop_collect [of df ym "h + 2" "[]" recs] by (simp add: parse_block_def)
  then show "recs = concat (map (resolved_records [CitizenVariant, TotalVariant] df ym)
                       [h + 2 ..< first_boundary df (h + 2)])"
    by (rule collect_rows_resolved)
next
  assume "find_header_blocks df = Inr blocks \<and> (h, ym) \<in> set blocks \<and> (y, cols) \<in> set ym"
  then show "\<exists>ys j sj sj1. scan_years df h [1..<n_cols df] = Inr ys \<and> (j, y) \<in> set ys
           \<and> sub_label df (h + 1) j = Inr sj \<and> sub_label df (h + 1) (j + 1) = Inr sj1
           \<and> cols = year_cols sj sj1 j"
    using detected_year_cols [of df blocks h ym y cols] by blast
next
  show "startswith (py_lower (py_strip (py_str (CStr (ascii ''Citizen, VEP''))))) (ascii ''citizen'')"
    by (simp add: ev)
qed (simp_all add: variant_col_def cell_record_def year_cols_def Let_def)

lemma two_blocks_preference:
  "parse_block two_blocks 0 [(2020, Some 1, Some 2), (2012, Some 3, None), (2008, None, None)] =
     Inr [\<lparr>year = 2020, state = ascii ''Alabama'', turnout = Fin False 591 (- 1)\<rparr>,
          \<lparr>year = 2012, state = ascii ''Alabama'', turnout = Fin False 5 1\<rparr>]"
  by (simp add: two_blocks_def ev ev_grid)

lemma two_blocks_cells:
  "iat two_blocks 2 1 = Inr (CStr (ascii ''63.6%''))"
  "iat two_blocks 2 2 = Inr (CFloat (Fin False 591 (- 1)))"
  "iat two_blocks 2 3 = Inr (CInt 50)"
  by (simp_all add: two_blocks_def iat_def)

lemma two_blocks_subheaders:
  "sub_label two_blocks 1 1 = Inr (ascii ''total'')"
  "sub_label two_blocks 1 2 = Inr (ascii ''citizen, vep'')"
  "sub_label two_blocks 1 4 = Inr []"
  by (simp_all add: two_blocks_def ev ev_grid)

lemma subheader_prefixes:
  "startswith (ascii ''citizen, vep'') (ascii ''citizen'')"
  "\<not> startswith (ascii ''total'') (ascii ''citizen'')"
  "\<not> startswith [] (ascii ''citizen'')"
  by (simp_all add: ev)

theorem citizen_column_preferred_witness:
  "parse_block two_blocks 0 [(2020, Some 1, Some 2), (2012, Some 3, None), (2008, None, None)] =
     Inr [\<lparr>year = 2020, state = ascii ''Alabama'', turnout = Fin False 591 (- 1)\<rparr>,
          \<lparr>year = 2012, state = ascii ''Alabama'', turnout = Fin False 5 1\<rparr>]
   \<and> [\<lparr>year = 2020, state = ascii ''Alabama'', turnout = Fin False 591 (- 1)\<rparr>,
          \<lparr>year = 2012, state = ascii ''Alabama'', turnout = Fin False 5 1\<rparr>] =
       concat (map (resolved_records [CitizenVariant, TotalVariant] two_blocks
                      [(2020, Some 1, Some 2), (2012, Some 3, None), (2008, None, None)])
                 [0 + 2 ..< first_boundary two_blocks (0 + 2)])
   \<and> iat two_blocks 2 1 = Inr (CStr (ascii ''63.6%''))
   \<and> iat two_blocks 2 2 = Inr (CFloat (Fin False 591 (- 1)))
   \<and> iat two_blocks 2 3 = Inr (CInt 50)
   \<and> find_header_blocks two_blocks =
     Inr [(0, [(2020, Some 1, Some 2), (2016, Some 3, Some 2), (2012, Some 3, None)]),
          (4, [(2008, Some 1, Some 2), (2004, Some 3, Some 2), (2000, Some 3, None)])]
   \<and> (\<exists>ys j sj sj1. scan_years two_blocks 0 [1..<n_cols two_blocks] = Inr ys \<and> (j, 2020) \<in> set ys
         \<and> sub_label two_blocks (0 + 1) j = Inr sj \<and> sub_label two_blocks (0 + 1) (j + 1) = Inr sj1
         \<and> (Some 1, Some 2) = year_cols sj sj1 j)
   \<and> sub_label two_blocks 1 2 = Inr (ascii ''citizen, vep'')
   \<and> snd (year_cols (ascii ''citizen, vep'') (ascii ''total'') 2) = Some 2
   \<and> snd (year_cols (ascii ''total'') (ascii ''citizen, vep'') 1) = Some (1 + 1)
   \<and> snd (year_cols (ascii ''total'') [] 3) = None"
proof -
  from citizen_column_preferred [where df = two_blocks and h = 0
      and ym = "[(2020, Some 1, Some 2), (2012, Some 3, None), (2008, None, None)]"
      and recs = "[\<lparr>year = 2020, state = ascii ''Alabama'', turnout = Fin False 591 (- 1)\<rparr>,
          \<lparr>year = 2012, state = ascii ''Alabama'', turnout = Fin False 5 1\<rparr>]"]
    two_blocks_preference
  have 1: "[\<lparr>year = 2020, state = ascii ''Alabama'', turnout = Fin False 591 (- 1)\<rparr>,
          \<lparr>year = 2012, state = ascii ''Alabama'', turnout = Fin False 5 1\<rparr>] =
       concat (map (resolved_records [CitizenVariant, TotalVariant] two_blocks
                      [(2020, Some 1, Some 2), (2012, Some 3, None), (2008, None, None)])
                 [0 + 2 ..< first_boundary two_blocks (0 + 2)])"
    by blast
  have "(0, [(2020, Some 1, Some 2), (2016, Some 3, Some 2), (2012, Some 3, None)]) \<in> set [(0, [(2020, Some 1, Some 2), (2016, Some 3, Some 2), (2012, Some 3, None)]),
          (4, [(2008, Some 1, Some 2), (2004, Some 3, Some 2), (2000, Some 3, None)])]"
    "(2020, Some 1, Some 2) \<in> set [(2020, Some 1, Some 2), (2016, Some 3, Some 2), (2012, Some 3, None)]"
    by simp_all
  with citizen_column_preferred [where df = two_blocks and h = 0
      and ym = "[(2020, Some 1, Some 2), (2016, Some 3, Some 2), (2012, Some 3, None)]"
      and blocks = "[(0, [(2020, Some 1, Some 2), (2016, Some 3, Some 2), (2012, Some 3, None)]),
          (4, [(2008, Some 1, Some 2), (2004, Some 3, Some 2), (2000, Some 3, None)])]"
      and y = 2020 and cols = "(Some 1, Some 2)"]
    two_blocks_found
  have 2: "\<exists>ys j sj sj1. scan_years two_blocks 0 [1..<n_cols two_blocks] = Inr ys \<and> (j, 2020) \<in> set ys
         \<and> sub_label two_blocks (0 + 1) j = Inr sj \<and> sub_label two_blocks (0 + 1) (j + 1) = Inr sj1
         \<and> (Some 1, Some 2) = year_cols sj sj1 j"
    by blast
  from citizen_column_preferred [where sub_here = "ascii ''citizen, vep''" and sub_next = "ascii ''total''"
      and k = 2] subheader_prefixes
  have 3: "snd (year_cols (ascii ''citizen, vep'') (ascii ''total'') 2) = Some 2" by blast
  from citizen_column_preferred [where sub_here = "ascii ''total''" and sub_next = "ascii ''citizen, vep''"
      and k = 1] subheader_prefixes
  have 4: "snd (year_cols (ascii ''total'') (ascii ''citizen, vep'') 1) = Some (1 + 1)" by blast
  from citizen_column_preferred [where sub_here = "ascii ''total''" and sub_next = "[]"
      and k = 3] subheader_prefixes
  have 5: "snd (year_cols (ascii ''total'') [] 3) = None" by blast
  from 1 2 3 4 5 two_blocks_preference two_blocks_cells two_blocks_found two_blocks_subheaders(2)
  show ?thesis by blast
qed

section \<open>Facts about the digit tables\<close>

lemma first_match_Some:
  "(case filter P xs of [] \<Rightarrow> None | z # _ \<Rightarrow> Some (f z)) = Some d \<Longrightarrow> \<exists>z \<in> set xs. P z \<and> d = f z"
  by (induction xs) (auto split: if_splits)

lemma first_match_None:
  "(case filter P xs of [] \<Rightarrow> None | z # _ \<Rightarrow> Some (f z)) = None \<longleftrightarrow> (\<forall>z \<in> set xs. \<not> P z)"
  by (induction xs) auto

lemma first_match_head:
  "P x \<Longrightarrow> (case filter P (x # xs) of [] \<Rightarrow> None | z # _ \<Rightarrow> Some (f z)) = Some (f x)"
  by simp

lemma decimal_value_run:
  "decimal_value c = Some d \<Longrightarrow> \<exists>z \<in> set decimal_starts. z \<le> c \<and> c < z + 10 \<and> d = c - z"
  using first_match_Some [where P = "\<lambda>z. z \<le> c \<and> c < z + 10" and xs = decimal_starts
      and f = "\<lambda>z. c - z" and d = d]
  by (simp add: decimal_value_def)

lemma decimal_value_less_10: "decimal_value c = Some d \<Longrightarrow> d < 10"
  by (auto dest: decimal_value_run)

lemma ascii_run_only: "\<forall>z \<in> set decimal_starts. z < 128 \<longrightarrow> z = 48"
  by (simp add: decimal_starts_def)

lemma decimal_value_ascii:
  assumes "decimal_value c = Some d" and "c < 128"
  shows "48 \<le> c \<and> c \<le> 57 \<and> d = c - 48"
proof -
  from decimal_value_run [OF assms(1)] obtain z where
    z: "z \<in> set decimal_starts" "z \<le> c" "c < z + 10" "d = c - z" by blast
  from z(2) assms(2) have "z < 128" by simp
  with z(1) ascii_run_only have "z = 48" by blast
  with z show ?thesis by simp
qed

lemma decimal_value_of_ascii_digit:
  assumes "is_ascii_digit c"
  shows "decimal_value c = Some (c - 48)"
proof -
  obtain rest where rest: "decimal_starts = 48 # rest" by (simp add: decimal_starts_def)
  from assms have "48 \<le> c \<and> c < 48 + 10" by (simp add: is_ascii_digit_def)
  then show ?thesis
    unfolding decimal_value_def rest
    by (rule first_match_head [where P = "\<lambda>z. z \<le> c \<and> c < z + 10" and f = "\<lambda>z. c - z"])
qed

lemma spaces_outside_runs:
  "\<forall>w \<in> set space_points. \<forall>z \<in> set decimal_starts. \<not> (z \<le> w \<and> w < z + 10)"
  by (simp add: space_points_def decimal_starts_def)

lemma decimal_not_space:
  assumes "decimal_value c = Some d"
  shows "\<not> isspace c"
proof
  assume "isspace c"
  then have "c \<in> set space_points" by (simp add: isspace_def)
  moreover from decimal_value_run [OF assms] obtain z where
    "z \<in> set decimal_starts" "z \<le> c" "c < z + 10" by blast
  ultimately show False using spaces_outside_runs by blast
qed

lemma other_digits_above_ascii: "\<forall>(lo, hi) \<in> set other_digit_ranges. 128 \<le> lo"
  by (simp add: other_digit_ranges_def)

lemma spaces_outside_other_digits:
  "\<forall>w \<in> set space_points. \<forall>(lo, hi) \<in> set other_digit_ranges. \<not> (lo \<le> w \<and> w \<le> hi)"
  by (simp add: space_points_def other_digit_ranges_def)

lemma other_digit_not_ascii_or_space:
  assumes "list_ex (\<lambda>(lo, hi). lo \<le> c \<and> c \<le> hi) other_digit_ranges"
  shows "128 \<le> c \<and> \<not> isspace c"
proof -
  from assms obtain lo hi where r: "(lo, hi) \<in> set other_digit_ranges" "lo \<le> c" "c \<le> hi"
    by (auto simp: list_ex_iff)
  from r(1) other_digits_above_ascii have "128 \<le> lo" by blast
  with r(2) have "128 \<le> c" by simp
  moreover have "\<not> isspace c"
  proof
    assume "isspace c"
    then have "c \<in> set space_points" by (simp add: isspace_def)
    with r spaces_outside_other_digits show False by blast
  qed
  ultimately show ?thesis by simp
qed

section \<open>What \<open>int\<close> makes of a text of digits\<close>

lemma to_ascii_map:
  "list_all (\<lambda>c. decimal_value c \<noteq> None) s \<Longrightarrow> to_ascii s = map (\<lambda>c. 48 + the (decimal_value c)) s"
proof (induction s)
  case Nil
  then show ?case by simp
next
  case (Cons c cs)
  then obtain d where d: "decimal_value c = Some d" by auto
  from Cons have rest: "to_ascii cs = map (\<lambda>c. 48 + the (decimal_value c)) cs" by simp
  show ?case
  proof (cases "c < 127")
    case True
    from True have "c < 128" by simp
    from decimal_value_ascii [OF d this] have "c = 48 + d" by simp
    with rest d True show ?thesis by simp
  next
    case False
    with rest d decimal_not_space [OF d] show ?thesis by simp
  qed
qed

lemma to_ascii_decimals:
  assumes "list_all (\<lambda>c. decimal_value c \<noteq> None) s"
  shows "to_ascii s = map (\<lambda>c. 48 + the (decimal_value c)) s \<and> list_all is_ascii_digit (to_ascii s)"
proof -
  have "is_ascii_digit (48 + the (decimal_value c))" if "c \<in> set s" for c
  proof -
    from that assms obtain d where d: "decimal_value c = Some d" by (auto simp: list_all_iff)
    from decimal_value_less_10 [OF d] d show ?thesis by (simp add: is_ascii_digit_def)
  qed
  then have "list_all is_ascii_digit (map (\<lambda>c. 48 + the (decimal_value c)) s)"
    by (simp add: list_all_iff)
  with to_ascii_map [OF assms] show ?thesis by simp
qed

lemma to_ascii_other_digit:
  "list_all isdigit_cp s \<Longrightarrow> \<not> list_all (\<lambda>c. decimal_value c \<noteq> None) s \<Longrightarrow>
     \<exists>pre. to_ascii s = pre @ [63] \<and> list_all is_ascii_digit pre"
proof (induction s)
  case Nil
  then show ?case by simp
next
  case (Cons c cs)
  show ?case
  proof (cases "decimal_value c")
    case None
    with Cons.prems(1) have "list_ex (\<lambda>(lo, hi). lo \<le> c \<and> c \<le> hi) other_digit_ranges"
      by (simp add: isdigit_cp_def)
    from other_digit_not_ascii_or_space [OF this] None have "to_ascii (c # cs) = [] @ [63]"
      by simp
    then show ?thesis by (intro exI [of _ "[]"]) simp
  next
    case (Some d)
    with Cons.prems have "list_all isdigit_cp cs" "\<not> list_all (\<lambda>c. decimal_value c \<noteq> None) cs"
      by simp_all
    from Cons.IH [OF this] obtain pre where pre: "to_ascii cs = pre @ [63]" "list_all is_ascii_digit pre"
      by blast
    have "list_all (\<lambda>c. decimal_value c \<noteq> None) [c]" using Some by simp
    from to_ascii_decimals [OF this] obtain a where a: "to_ascii [c] = [a]" "is_ascii_digit a"
      by auto
    have "to_ascii (c # cs) = a # to_ascii cs"
      using a(1) Some by (auto split: if_splits)
    with pre a(2) have "to_ascii (c # cs) = (a # pre) @ [63] \<and> list_all is_ascii_digit (a # pre)"
      by simp
    then show ?thesis by blast
  qed
qed

lemma no_underscores_ok: "95 \<notin> set s \<Longrightarrow> prev \<noteq> 95 \<Longrightarrow> underscores_ok prev s"
  by (induction s arbitrary: prev) auto

lemma digit_not_special:
  "is_ascii_digit c \<Longrightarrow> \<not> c_isspace c \<and> c \<noteq> 45 \<and> c \<noteq> 43 \<and> c \<noteq> 95 \<and> c \<noteq> 63"
  by (auto simp: is_ascii_digit_def c_isspace_def)

lemma c_strip_digits_then:
  assumes "list_all is_ascii_digit pre" and "\<not> c_isspace x"
  shows "c_strip (pre @ [x]) = pre @ [x]"
  unfolding c_strip_def
proof (rule trim_fixed, rule disjI2, rule conjI)
  show "\<not> c_isspace (hd (pre @ [x]))"
    using assms by (cases pre) (simp_all add: digit_not_special)
  show "\<not> c_isspace (last (pre @ [x]))" using assms(2) by simp
qed

lemma c_strip_digits:
  assumes "list_all is_ascii_digit ds"
  shows "c_strip ds = ds"
proof (cases ds rule: rev_cases)
  case Nil
  then show ?thesis by (simp add: c_strip_def)
next
  case (snoc pre x)
  with assms show ?thesis by (simp add: c_strip_digits_then digit_not_special)
qed

lemma py_int_digits:
  assumes "to_ascii s = ds" and "ds \<noteq> []" and "list_all is_ascii_digit ds"
  shows "py_int s = Inr (int (digits_val ds))"
proof -
  from assms(2,3) have sign: "split_sign ds = (False, ds)"
    by (cases ds) (auto simp: split_sign_def dest: digit_not_special)
  from assms(3) have no95: "95 \<notin> set ds"
    by (auto simp: list_all_iff dest: digit_not_special)
  then have keep: "remove_char 95 ds = ds" by (auto simp: remove_char_def filter_id_conv)
  from no95 have "underscores_ok 0 ds" by (simp add: no_underscores_ok)
  with assms sign keep show ?thesis
    by (simp add: py_int_def c_strip_digits)
qed

lemma py_int_question_mark:
  assumes "to_ascii s = pre @ [63]" and "list_all is_ascii_digit pre"
  shows "py_int s = Inl invalid_int"
proof -
  have strip: "c_strip (pre @ [63]) = pre @ [63]"
    by (rule c_strip_digits_then [OF assms(2)]) (simp add: c_isspace_def)
  have sign: "split_sign (pre @ [63]) = (False, pre @ [63])"
    using assms(2) by (cases pre) (auto simp: split_sign_def dest: digit_not_special)
  have "63 \<in> set (remove_char 95 (pre @ [63]))" by (simp add: remove_char_def)
  moreover have "\<not> is_ascii_digit 63" by (simp add: is_ascii_digit_def)
  ultimately have "\<not> list_all is_ascii_digit (remove_char 95 (pre @ [63]))"
    unfolding list_all_iff by blast
  with assms(1) strip sign show ?thesis by (simp add: py_int_def)
qed

lemma is_year_str_cases:
  "is_year_str s =
     (if length (py_strip s) = 4 \<and> py_isdigit (py_strip s) then
        (if list_all (\<lambda>c. decimal_value c \<noteq> None) (py_strip s) then
           (if 1900 \<le> int (digits_val (to_ascii (py_strip s)))
                \<and> int (digits_val (to_ascii (py_strip s))) \<le> 2100
            then Inr (Some (int (digits_val (to_ascii (py_strip s))))) else Inr None)
         else Inl invalid_int)
      else Inr None)"
proof (cases "length (py_strip s) = 4 \<and> py_isdigit (py_strip s)")
  case False
  then show ?thesis by (auto simp: is_year_str_def Let_def)
next
  case True
  define t where "t = py_strip s"
  from True have t: "length t = 4" "list_all isdigit_cp t" by (simp_all add: t_def py_isdigit_def)
  show ?thesis
  proof (cases "list_all (\<lambda>c. decimal_value c \<noteq> None) t")
    case dec: True
    from to_ascii_decimals [OF dec] t(1) have "to_ascii t \<noteq> []" "list_all is_ascii_digit (to_ascii t)"
      by auto
    from py_int_digits [OF refl this] have "py_int t = Inr (int (digits_val (to_ascii t)))" .
    with True dec show ?thesis by (simp add: is_year_str_def t_def Let_def)
  next
    case False
    from to_ascii_other_digit [OF t(2) False] obtain pre where
      "to_ascii t = pre @ [63]" "list_all is_ascii_digit pre" by blast
    from py_int_question_mark [OF this] True False show ?thesis
      by (simp add: is_year_str_def t_def Let_def)
  qed
qed

lemma to_ascii_of_ascii: "list_all (\<lambda>c. c < 127) s \<Longrightarrow> to_ascii s = s"
  by (induction s) simp_all

lemma ascii_isdigit:
  assumes "isdigit_cp c" and "c < 128"
  shows "is_ascii_digit c"
proof (cases "decimal_value c")
  case None
  with assms(1) have "list_ex (\<lambda>(lo, hi). lo \<le> c \<and> c \<le> hi) other_digit_ranges"
    by (simp add: isdigit_cp_def)
  from other_digit_not_ascii_or_space [OF this] assms(2) show ?thesis by simp
next
  case (Some d)
  from decimal_value_ascii [OF Some assms(2)] show ?thesis by (simp add: is_ascii_digit_def)
qed

lemma ascii_digit_isdigit: "is_ascii_digit c \<Longrightarrow> isdigit_cp c \<and> decimal_value c \<noteq> None \<and> c < 127"
  by (simp add: isdigit_cp_def decimal_value_of_ascii_digit) (simp add: is_ascii_digit_def)

section \<open>The period token recognizer\<close>

text \<open>
  Claim C4, as stated, fails on digits outside ASCII: the four Arabic-Indic digits
  U+0662 U+0660 U+0662 U+0660 are not ASCII digits, and \<open>is_year_str\<close> returns 2020 for
  them, since \<open>str.isdigit\<close> and \<open>int\<close> accept the decimal digits of every script.
\<close>

theorem arabic_indic_year_accepted:
  "is_year_str [0x662, 0x660, 0x662, 0x660] = Inr (Some 2020)
   \<and> py_strip [0x662, 0x660, 0x662, 0x660] = [0x662, 0x660, 0x662, 0x660]
   \<and> \<not> list_all is_ascii_digit [0x662, 0x660, 0x662, 0x660]"
  by (simp add: ev)

text \<open>
  Four superscript twos are digits for \<open>str.isdigit\<close> but not for \<open>int\<close>: the call
  raises \<open>ValueError\<close>.
\<close>

lemma superscript_digits_raise:
  "is_year_str [0xB2, 0xB2, 0xB2, 0xB2] = Inl (ValueError ''invalid literal for int() with base 10'')"
  by (simp add: ev)

text \<open>
  Claim C4, amended. \<open>is_year_str\<close> returns the year \<open>y\<close> exactly when the trimmed text
  consists of four decimal digits (of ASCII or of another script) whose number is \<open>y\<close>, and
  \<open>y\<close> lies between 1900 and 2100. For a trimmed text within ASCII this is the claim as
  stated: a year exactly for four ASCII digits in that range, and no period for every
  other text. A text whose trimmed form does not have four characters that are all digits
  for \<open>str.isdigit\<close> is no period, and neither are four decimal digits outside the range.
\<close>

theorem period_token_recognized:
  "(is_year_str s = Inr (Some y) \<longleftrightarrow>
      length (py_strip s) = 4 \<and> list_all (\<lambda>c. decimal_value c \<noteq> None) (py_strip s)
      \<and> y = int (digits_val (to_ascii (py_strip s))) \<and> 1900 \<le> y \<and> y \<le> 2100)
   \<and> (list_all (\<lambda>c. c < 128) (py_strip s) \<longrightarrow>
        (is_year_str s = Inr (Some y) \<longleftrightarrow>
           length (py_strip s) = 4 \<and> list_all is_ascii_digit (py_strip s)
           \<and> y = int (digits_val (py_strip s)) \<and> 1900 \<le> y \<and> y \<le> 2100)
        \<and> ((\<forall>y'. is_year_str s \<noteq> Inr (Some y')) \<longrightarrow> is_year_str s = Inr None))
   \<and> (length (py_strip s) \<noteq> 4 \<or> \<not> py_isdigit (py_strip s) \<longrightarrow> is_year_str s = Inr None)
   \<and> (length (py_strip s) = 4 \<and> list_all (\<lambda>c. decimal_value c \<noteq> None) (py_strip s)
        \<and> \<not> (1900 \<le> int (digits_val (to_ascii (py_strip s)))
              \<and> int (digits_val (to_ascii (py_strip s))) \<le> 2100) \<longrightarrow>
        is_year_str s = Inr None)"
proof -
  define t where "t = py_strip s"
  have dec_digit: "list_all (\<lambda>c. decimal_value c \<noteq> None) t \<Longrightarrow> list_all isdigit_cp t"
    by (simp add: list_all_iff isdigit_cp_def)
  have general: "is_year_str s = Inr (Some y) \<longleftrightarrow>
      length t = 4 \<and> list_all (\<lambda>c. decimal_value c \<noteq> None) t
      \<and> y = int (digits_val (to_ascii t)) \<and> 1900 \<le> y \<and> y \<le> 2100"
  proof (cases "length t = 4")
    case False
    then show ?thesis by (simp add: is_year_str_cases [of s] t_def)
  next
    case True
    then have ne: "t \<noteq> []" by auto
    show ?thesis
    proof (cases "list_all (\<lambda>c. decimal_value c \<noteq> None) t")
      case False
      with True show ?thesis
        by (simp add: is_year_str_cases [of s] t_def [symmetric] invalid_int_def)
    next
      case dec: True
      with dec_digit ne have "py_isdigit t" by (simp add: py_isdigit_def)
      with True dec show ?thesis
        by (auto simp: is_year_str_cases [of s] t_def [symmetric])
    qed
  qed
  have ascii_part: "(is_year_str s = Inr (Some y) \<longleftrightarrow>
           length t = 4 \<and> list_all is_ascii_digit t
           \<and> y = int (digits_val t) \<and> 1900 \<le> y \<and> y \<le> 2100)
        \<and> ((\<forall>y'. is_year_str s \<noteq> Inr (Some y')) \<longrightarrow> is_year_str s = Inr None)"
    if asc: "list_all (\<lambda>c. c < 128) t"
  proof -
    have same: "list_all (\<lambda>c. decimal_value c \<noteq> None) t \<longleftrightarrow> list_all is_ascii_digit t"
      using asc decimal_value_ascii ascii_digit_isdigit
      by (auto simp: list_all_iff is_ascii_digit_def)
    have digit: "list_all isdigit_cp t \<longleftrightarrow> list_all is_ascii_digit t"
      using asc ascii_isdigit ascii_digit_isdigit by (auto simp: list_all_iff)
    have val: "to_ascii t = t" if "list_all is_ascii_digit t"
      by (rule to_ascii_of_ascii) (use that ascii_digit_isdigit in \<open>auto simp: list_all_iff\<close>)
    have first: "is_year_str s = Inr (Some y) \<longleftrightarrow>
           length t = 4 \<and> list_all is_ascii_digit t
           \<and> y = int (digits_val t) \<and> 1900 \<le> y \<and> y \<le> 2100"
      using general same val by auto
    have "is_year_str s \<noteq> Inl invalid_int"
      using digit same by (auto simp: is_year_str_cases [of s] t_def [symmetric] py_isdigit_def)
    moreover have "is_year_str s = Inl e \<Longrightarrow> e = invalid_int" for e
      by (rule is_year_str_error)
    ultimately have "(\<forall>y'. is_year_str s \<noteq> Inr (Some y')) \<longrightarrow> is_year_str s = Inr None"
    proof (cases "is_year_str s")
      case (Inl e)
      with \<open>is_year_str s \<noteq> Inl invalid_int\<close> is_year_str_error [of s e] show ?thesis by simp
    next
      case (Inr b)
      then show ?thesis by (cases b) simp_all
    qed
    with first show ?thesis by simp
  qed
  have third: "length t \<noteq> 4 \<or> \<not> py_isdigit t \<longrightarrow> is_year_str s = Inr None"
    by (auto simp: is_year_str_cases [of s] t_def [symmetric])
  have fourth: "length t = 4 \<and> list_all (\<lambda>c. decimal_value c \<noteq> None) t
        \<and> \<not> (1900 \<le> int (digits_val (to_ascii t)) \<and> int (digits_val (to_ascii t)) \<le> 2100) \<longrightarrow>
        is_year_str s = Inr None"
    by (auto simp: is_year_str_cases [of s] t_def [symmetric])
  from general ascii_part third fourth show ?thesis
    unfolding t_def by blast
qed


theorem period_token_recognized_witness:
  "list_all (\<lambda>c. c < 128) (py_strip (ascii '' 2020 ''))
   \<and> is_year_str (ascii '' 2020 '') = Inr (Some 2020)
   \<and> length (py_strip (ascii ''20201'')) \<noteq> 4 \<and> is_year_str (ascii ''20201'') = Inr None
   \<and> \<not> py_isdigit (py_strip (ascii ''20x0'')) \<and> is_year_str (ascii ''20x0'') = Inr None
   \<and> is_year_str (ascii ''1000'') = Inr None
   \<and> is_year_str (py_str (CInt 2020)) = Inr (Some 2020)
   \<and> is_year_str (py_str (CFloat (Fin False 202 1))) = Inr None"
proof -
  have a: "list_all (\<lambda>c. c < 128) (py_strip (ascii '' 2020 ''))"
    and b: "length (py_strip (ascii '' 2020 '')) = 4 \<and> list_all is_ascii_digit (py_strip (ascii '' 2020 ''))
      \<and> 2020 = int (digits_val (py_strip (ascii '' 2020 ''))) \<and> 1900 \<le> (2020::int) \<and> (2020::int) \<le> 2100"
    by (simp_all add: ev)
  from period_token_recognized [of "ascii '' 2020 ''" 2020] a b
  have 1: "is_year_str (ascii '' 2020 '') = Inr (Some 2020)" by blast
  have c: "length (py_strip (ascii ''20201'')) \<noteq> 4" by (simp add: ev)
  with period_token_recognized [of "ascii ''20201''" 0]
  have 2: "is_year_str (ascii ''20201'') = Inr None" by blast
  have d: "\<not> py_isdigit (py_strip (ascii ''20x0''))" by (simp add: ev)
  with period_token_recognized [of "ascii ''20x0''" 0]
  have 3: "is_year_str (ascii ''20x0'') = Inr None" by blast
  have e: "length (py_strip (ascii ''1000'')) = 4
      \<and> list_all (\<lambda>c. decimal_value c \<noteq> None) (py_strip (ascii ''1000''))
      \<and> \<not> (1900 \<le> int (digits_val (to_ascii (py_strip (ascii ''1000''))))
            \<and> int (digits_val (to_ascii (py_strip (ascii ''1000'')))) \<le> 2100)"
    by (simp add: ev)
  with period_token_recognized [of "ascii ''1000''" 0]
  have 4: "is_year_str (ascii ''1000'') = Inr None" by blast
  have f: "py_str (CInt 2020) = ascii ''2020''" "py_str (CFloat (Fin False 202 1)) = ascii ''2020.0''"
    by (simp_all add: ev)
  have g: "length (py_strip (ascii ''2020'')) = 4
      \<and> list_all (\<lambda>c. decimal_value c \<noteq> None) (py_strip (ascii ''2020''))
      \<and> 2020 = int (digits_val (to_ascii (py_strip (ascii ''2020''))))
      \<and> 1900 \<le> (2020::int) \<and> (2020::int) \<le> 2100"
    by (simp add: ev)
  with period_token_recognized [of "ascii ''2020''" 2020] f(1)
  have 5: "is_year_str (py_str (CInt 2020)) = Inr (Some 2020)" by simp
  have h: "length (py_strip (ascii ''2020.0'')) \<noteq> 4" by (simp add: ev)
  with period_token_recognized [of "ascii ''2020.0''" 0] f(2)
  have 6: "is_year_str (py_str (CFloat (Fin False 202 1))) = Inr None" by simp
  from a 1 c 2 d 3 4 5 6 show ?thesis by blast
qed

section \<open>Trimming a text with a core\<close>

lemma trim_core:
  assumes "\<forall>x \<in> set ws1. P x" and "\<forall>x \<in> set ws2. P x"
    and "core \<noteq> []" and "\<not> P (hd core)" and "\<not> P (last core)"
  shows "rev (dropWhile P (rev (dropWhile P (ws1 @ core @ ws2)))) = core"
proof -
  have "dropWhile P (ws1 @ core @ ws2) = dropWhile P (core @ ws2)"
    using assms(1) by (simp add: dropWhile_append2)
  also have "\<dots> = core @ ws2" using assms(3,4) by (cases core) simp_all
  finally have front: "dropWhile P (ws1 @ core @ ws2) = core @ ws2" .
  have "dropWhile P (rev ws2 @ rev core) = dropWhile P (rev core)"
    by (rule dropWhile_append2) (use assms(2) in simp)
  then have "dropWhile P (rev (core @ ws2)) = dropWhile P (rev core)" by simp
  also have "\<dots> = rev core" using assms(3,5) by (cases core rule: rev_cases) simp_all
  finally show ?thesis by (simp add: front)
qed

lemma trim_blank:
  assumes "\<forall>x \<in> set ws. P x"
  shows "rev (dropWhile P (rev (dropWhile P ws))) = []"
proof -
  from assms have e: "dropWhile P ws = []" by (induction ws) simp_all
  show ?thesis unfolding e by simp
qed

lemma py_strip_core:
  assumes "list_all isspace ws1" and "list_all isspace ws2"
    and "core \<noteq> []" and "\<not> isspace (hd core)" and "\<not> isspace (last core)"
  shows "py_strip (ws1 @ core @ ws2) = core"
  unfolding py_strip_def using assms by (intro trim_core) (simp_all add: list_all_iff)

lemma py_strip_self:
  assumes "core \<noteq> []" and "\<not> isspace (hd core)" and "\<not> isspace (last core)"
  shows "py_strip core = core"
  using py_strip_core [of "[]" "[]" core] assms by simp

section \<open>Lower case of digits and points\<close>

lemma py_lower_head_n:
  assumes "py_lower (c # cs) = ascii ''nan''"
  shows "c = 110 \<or> c = 78"
proof -
  have "hd (py_lower (c # cs)) = hd (lower_cp c)"
    by (simp add: py_lower_def lower_cp_def)
  with assms have "hd (lower_cp c) = 110" by (simp add: ascii_def)
  then show ?thesis by (auto simp: lower_cp_def split: if_splits)
qed

lemma py_lower_plain:
  "list_all (\<lambda>c. is_ascii_digit c \<or> c = 46) s \<Longrightarrow> py_lower s = s"
  by (induction s) (auto simp: py_lower_def lower_cp_def is_ascii_digit_def)

section \<open>What \<open>float\<close> makes of a decimal text\<close>

lemma to_ascii_append:
  "list_all (\<lambda>c. decimal_value c \<noteq> None) xs \<Longrightarrow> to_ascii (xs @ ys) = to_ascii xs @ to_ascii ys"
proof (induction xs)
  case Nil
  then show ?case by simp
next
  case (Cons c cs)
  then obtain d where d: "decimal_value c = Some d" by auto
  from Cons have "to_ascii (cs @ ys) = to_ascii cs @ to_ascii ys" by simp
  with d show ?case by (simp add: decimal_not_space [OF d])
qed

lemma to_ascii_length:
  "list_all (\<lambda>c. decimal_value c \<noteq> None) xs \<Longrightarrow> length (to_ascii xs) = length xs"
  by (simp add: to_ascii_map)

lemma trim_nothing:
  assumes "\<forall>x \<in> set t. \<not> P x"
  shows "rev (dropWhile P (rev (dropWhile P t))) = t"
proof (rule trim_fixed)
  show "t = [] \<or> \<not> P (hd t) \<and> \<not> P (last t)"
    using assms by (cases "t = []") simp_all
qed

lemma plain_parts:
  assumes "list_all (\<lambda>c. is_ascii_digit c \<or> c = 46) t" and "t \<noteq> []" and "is_ascii_digit (hd t)"
  shows "c_strip t = t" and "underscores_ok 0 t" and "remove_char 95 t = t"
    and "split_sign t = (False, t)" and "py_lower t = t"
    and "t \<noteq> ascii ''inf''" and "t \<noteq> ascii ''infinity''" and "t \<noteq> ascii ''nan''"
proof -
  have chars: "\<forall>x \<in> set t. \<not> c_isspace x \<and> x \<noteq> 95"
    using assms(1) by (auto simp: list_all_iff c_isspace_def is_ascii_digit_def)
  show "c_strip t = t" unfolding c_strip_def by (rule trim_nothing) (use chars in blast)
  from chars have no95: "95 \<notin> set t" by blast
  then show "underscores_ok 0 t" by (simp add: no_underscores_ok)
  from no95 show "remove_char 95 t = t" by (auto simp: remove_char_def filter_id_conv)
  from assms(2,3) show "split_sign t = (False, t)"
    by (cases t) (auto simp: split_sign_def dest: digit_not_special)
  show "py_lower t = t" by (rule py_lower_plain [OF assms(1)])
  from assms(2,3) show "t \<noteq> ascii ''inf''" "t \<noteq> ascii ''infinity''" "t \<noteq> ascii ''nan''"
    by (cases t; auto simp: ascii_def is_ascii_digit_def)+
qed

lemma parse_number_decimal:
  assumes "ip \<noteq> []" and "list_all is_ascii_digit ip" and "list_all is_ascii_digit fp"
    and "frac = [] \<and> fp = [] \<or> frac = 46 # fp \<and> fp \<noteq> []"
  shows "parse_number (ip @ frac) = Some (digits_val (ip @ fp), - int (length fp))"
proof -
  have nd: "\<not> is_ascii_digit 46" by (simp add: is_ascii_digit_def)
  have ipP: "\<And>x. x \<in> set ip \<Longrightarrow> is_ascii_digit x" using assms(2) by (simp add: list_all_iff)
  have fpP: "\<And>x. x \<in> set fp \<Longrightarrow> is_ascii_digit x" using assms(3) by (simp add: list_all_iff)
  have tfrac: "takeWhile is_ascii_digit frac = []" "dropWhile is_ascii_digit frac = frac"
    using assms(4) nd by auto
  have t: "takeWhile is_ascii_digit (ip @ frac) = ip"
    using takeWhile_append2 [of ip is_ascii_digit frac] ipP tfrac by simp
  have d: "dropWhile is_ascii_digit (ip @ frac) = frac"
    using dropWhile_append2 [of ip is_ascii_digit frac] ipP tfrac by simp
  have tf: "takeWhile is_ascii_digit fp = fp" "dropWhile is_ascii_digit fp = []"
    using fpP by (simp_all add: takeWhile_eq_all_conv dropWhile_eq_Nil_conv)
  from assms(4) show ?thesis
  proof
    assume a: "frac = [] \<and> fp = []"
    show ?thesis
      unfolding parse_number_def Let_def t d using a assms(1) by simp
  next
    assume "frac = 46 # fp \<and> fp \<noteq> []"
    then have frac: "frac = 46 # fp" by simp
    show ?thesis
      unfolding frac
      by (simp only: parse_number_def Let_def t [unfolded frac] d [unfolded frac] list.case
          simp_thms if_True prod.case tf)
        (use assms(1) in simp)
  qed
qed

lemma py_float_decimal:
  assumes "ip \<noteq> []" and "list_all (\<lambda>c. decimal_value c \<noteq> None) ip"
    and "list_all (\<lambda>c. decimal_value c \<noteq> None) fp"
    and "frac = [] \<and> fp = [] \<or> frac = 46 # fp \<and> fp \<noteq> []"
  shows "py_float (ip @ frac) =
    Inr (float_of_decimal False (digits_val (to_ascii (ip @ fp))) (- int (length fp)))"
proof -
  define ip' where "ip' = to_ascii ip"
  define fp' where "fp' = to_ascii fp"
  define frac' where "frac' = (if frac = [] then [] else 46 # fp')"
  have ip': "ip' \<noteq> []" "list_all is_ascii_digit ip'"
    using assms(1,2) to_ascii_decimals [OF assms(2)] to_ascii_length [OF assms(2)]
    by (auto simp: ip'_def)
  have fp': "list_all is_ascii_digit fp'" "length fp' = length fp"
    using to_ascii_decimals [OF assms(3)] to_ascii_length [OF assms(3)] by (auto simp: fp'_def)
  have frac': "frac' = [] \<and> fp' = [] \<or> frac' = 46 # fp' \<and> fp' \<noteq> []"
    using assms(4) fp'(2) by (auto simp: frac'_def fp'_def)
  have "to_ascii frac = frac'"
    using assms(4) by (auto simp: frac'_def fp'_def)
  then have t: "to_ascii (ip @ frac) = ip' @ frac'"
    by (simp add: to_ascii_append [OF assms(2)] ip'_def)
  have both: "to_ascii (ip @ fp) = ip' @ fp'"
    by (simp add: to_ascii_append [OF assms(2)] ip'_def fp'_def)
  have plain: "list_all (\<lambda>c. is_ascii_digit c \<or> c = 46) (ip' @ frac')"
    using ip'(2) fp'(1) frac' by (auto simp: list_all_iff)
  have ne: "ip' @ frac' \<noteq> []" using ip'(1) by simp
  have hd: "is_ascii_digit (hd (ip' @ frac'))" using ip' by (cases ip') simp_all
  note parts = plain_parts [OF plain ne hd]
  have num: "parse_number (ip' @ frac') = Some (digits_val (ip' @ fp'), - int (length fp'))"
    by (rule parse_number_decimal [OF ip' fp'(1) frac'])
  show ?thesis
    unfolding py_float_def t
    by (simp add: Let_def parts num both fp'(2) ip'(1))
qed

section \<open>The value cleaner\<close>

lemma py_float_error: "py_float s = Inl e \<Longrightarrow> e = invalid_float"
  by (auto simp: py_float_def Let_def split: if_splits prod.splits option.splits)

lemma clean_text_never_raises: "\<exists>r. clean_percentage_like (CStr s) = Inr r"
proof (cases "py_float (py_strip (remove_char 44 (remove_char 37 (py_strip s))))")
  case (Inl e)
  with py_float_error [OF Inl] show ?thesis
    by (simp add: clean_percentage_like_def py_str_def Let_def invalid_float_def)
next
  case (Inr f)
  then show ?thesis by (simp add: clean_percentage_like_def py_str_def Let_def)
qed

lemma ascii_not_decimal:
  assumes "c < 128" and "\<not> is_ascii_digit c"
  shows "decimal_value c = None"
proof (cases "decimal_value c")
  case None
  then show ?thesis .
next
  case (Some d)
  from decimal_value_ascii [OF Some assms(1)] assms(2) show ?thesis
    by (simp add: is_ascii_digit_def)
qed

lemma clean_decimal_text:
  assumes ws: "list_all isspace ws1" "list_all isspace ws2"
    and pct: "pct = [] \<or> pct = [37]"
    and ip: "ip \<noteq> []" "list_all (\<lambda>c. decimal_value c \<noteq> None) ip"
    and fp: "list_all (\<lambda>c. decimal_value c \<noteq> None) fp"
    and frac: "frac = [] \<and> fp = [] \<or> frac = 46 # fp \<and> fp \<noteq> []"
    and body: "remove_char 44 body = ip @ frac"
  shows "clean_percentage_like (CStr (ws1 @ body @ pct @ ws2)) =
    Inr (Some (float_of_decimal False (digits_val (to_ascii (ip @ fp))) (- int (length fp))))"
proof -
  have sp: "\<not> isspace 37" "\<not> isspace 44" "\<not> isspace 46"
    by (simp_all add: isspace_def space_points_def)
  have num: "x = 46 \<or> decimal_value x \<noteq> None" if "x \<in> set (ip @ frac)" for x
    using that ip(2) fp frac by (auto simp: list_all_iff)
  have num_sp: "\<not> isspace x" if "x \<in> set (ip @ frac)" for x
    using num [OF that] sp(3) decimal_not_space by auto
  have in_body: "x = 44 \<or> x \<in> set (ip @ frac)" if "x \<in> set body" for x
  proof (cases "x = 44")
    case False
    with that have "x \<in> set (remove_char 44 body)" by (simp add: remove_char_def)
    with body show ?thesis by simp
  qed simp
  have body_sp: "\<not> isspace x" if "x \<in> set body" for x
    using in_body [OF that] sp(2) num_sp by auto
  have body_37: "37 \<notin> set body"
  proof
    assume "37 \<in> set body"
    from in_body [OF this] have "37 \<in> set (ip @ frac)" by simp
    from num [OF this] ascii_not_decimal [of 37] show False by (simp add: is_ascii_digit_def)
  qed
  have body_ne: "body \<noteq> []" using body ip(1) by (auto simp: remove_char_def)
  define core where "core = body @ pct"
  have core_ne: "core \<noteq> []" using body_ne by (simp add: core_def)
  have core_sp: "\<not> isspace x" if "x \<in> set core" for x
    using that body_sp pct sp(1) by (auto simp: core_def)
  have "py_strip (ws1 @ core @ ws2) = core"
    by (rule py_strip_core [OF ws core_ne]) (use core_ne core_sp in simp_all)
  then have trimmed: "py_strip (ws1 @ body @ pct @ ws2) = core" by (simp add: core_def)
  have not_nan: "py_lower core \<noteq> ascii ''nan''"
  proof
    assume a: "py_lower core = ascii ''nan''"
    from body_ne obtain c cs where c: "body = c # cs" by (cases body) auto
    with a have "py_lower (c # (cs @ pct)) = ascii ''nan''" by (simp add: core_def)
    from py_lower_head_n [OF this] have "c = 110 \<or> c = 78" .
    moreover from c in_body [of c] have "c = 44 \<or> c \<in> set (ip @ frac)" by simp
    moreover have "decimal_value 110 = None" "decimal_value 78 = None"
      by (rule ascii_not_decimal; simp add: is_ascii_digit_def)+
    ultimately show False using num [of c] by auto
  qed
  have "remove_char 37 core = body"
    using body_37 pct by (auto simp: core_def remove_char_def filter_id_conv)
  then have cleaned: "remove_char 44 (remove_char 37 core) = ip @ frac" using body by simp
  have again: "py_strip (ip @ frac) = ip @ frac"
    unfolding py_strip_def by (rule trim_nothing) (use num_sp in blast)
  have "py_float (ip @ frac) =
      Inr (float_of_decimal False (digits_val (to_ascii (ip @ fp))) (- int (length fp)))"
    by (rule py_float_decimal [OF ip fp frac])
  with trimmed core_ne not_nan cleaned again show ?thesis
    by (simp add: clean_percentage_like_def py_str_def Let_def)
qed

text \<open>
  Claim C3, as stated, fails on a percent sign that is not at the end: the text \<open>6%3\<close>
  has no trailing percent sign and no comma and is no number, so the claim gives no value;
  the cleaner removes every percent sign and returns 63.
\<close>

theorem inner_percent_sign_removed:
  "clean_percentage_like (CStr (ascii ''6%3'')) = Inr (Some (Fin False 63 0))
   \<and> py_float (py_strip (remove_char 44 (strip_trailing_percent (py_strip (ascii ''6%3''))))) =
       Inl (ValueError ''could not convert string to float'')"
  by (simp add: strip_trailing_percent_def ev)

text \<open>An integer beyond the range of a float makes \<open>float(value)\<close> raise.\<close>

lemma huge_int_raises: "clean_percentage_like (CInt (2 ^ 1024)) = Inl OverflowError"
  by (simp add: clean_percentage_like_def float_of_int_def overflows_def)

text \<open>
  A number with more digits than a binary64 holds becomes the nearest float: the integer
  \<open>2 ^ 53 + 1\<close> gives the same float as \<open>2 ^ 53\<close>, and a text of 34 digits gives the same
  float as \<open>0.1\<close>.
\<close>

lemma long_integer_rounded:
  "clean_percentage_like (CInt (2 ^ 53 + 1)) = Inr (Some (Fin False 9007199254740992 0))"
  "clean_percentage_like (CInt (2 ^ 53)) = Inr (Some (Fin False 9007199254740992 0))"
  by (simp_all add: ev)

lemma long_text_rounded:
  "clean_percentage_like (CStr (ascii ''0.1000000000000000055511151231257827'')) =
     Inr (Some (Fin False 1 (- 1)))"
  "clean_percentage_like (CStr (ascii ''0.1'')) = Inr (Some (Fin False 1 (- 1)))"
  by (simp_all add: ev)

text \<open>
  Claim C3, amended. The cleaner returns absent for \<open>None\<close> and for the float \<open>nan\<close>, and
  passes every other float through; an integer below the range limit of a float passes
  through as that float. On text it never raises: it returns absent for blank text, for
  text that is \<open>nan\<close> in any case after trimming, and for every text that \<open>float\<close> rejects
  once trimmed, freed of all its percent signs (wherever they stand) and of all its
  commas, and trimmed again; and for whitespace, then digits with an optional point and
  more digits, commas allowed among them, then an optional percent sign and whitespace, it
  returns the float of that decimal number.
\<close>

theorem value_cleaner_contract:
  "clean_percentage_like CNone = Inr None
   \<and> clean_percentage_like (CFloat NaN) = Inr None
   \<and> (f \<noteq> NaN \<longrightarrow> clean_percentage_like (CFloat f) = Inr (Some f))
   \<and> (\<bar>n\<bar> < 2 ^ 1024 - 2 ^ 970 \<longrightarrow>
        clean_percentage_like (CInt n) = Inr (Some (float_of_decimal (n < 0) (nat \<bar>n\<bar>) 0)))
   \<and> (\<exists>r. clean_percentage_like (CStr s) = Inr r)
   \<and> (list_all isspace s \<longrightarrow> clean_percentage_like (CStr s) = Inr None)
   \<and> (py_lower (py_strip s) = ascii ''nan'' \<longrightarrow> clean_percentage_like (CStr s) = Inr None)
   \<and> ((\<exists>e. py_float (py_strip (remove_char 44 (remove_char 37 (py_strip s)))) = Inl e) \<longrightarrow>
        clean_percentage_like (CStr s) = Inr None)
   \<and> (list_all isspace ws1 \<and> list_all isspace ws2 \<and> (pct = [] \<or> pct = [37])
        \<and> ip \<noteq> [] \<and> list_all (\<lambda>c. decimal_value c \<noteq> None) ip
        \<and> list_all (\<lambda>c. decimal_value c \<noteq> None) fp
        \<and> (frac = [] \<and> fp = [] \<or> frac = 46 # fp \<and> fp \<noteq> [])
        \<and> remove_char 44 body = ip @ frac \<longrightarrow>
        clean_percentage_like (CStr (ws1 @ body @ pct @ ws2)) =
          Inr (Some (float_of_decimal False (digits_val (to_ascii (ip @ fp))) (- int (length fp)))))"
proof (intro conjI impI)
  show "clean_percentage_like CNone = Inr None" by (simp add: clean_percentage_like_def)
  show "clean_percentage_like (CFloat NaN) = Inr None" by (simp add: clean_percentage_like_def)
  show "clean_percentage_like (CFloat f) = Inr (Some f)" if "f \<noteq> NaN"
    using that by (simp add: clean_percentage_like_def)
  show "clean_percentage_like (CInt n) = Inr (Some (float_of_decimal (n < 0) (nat \<bar>n\<bar>) 0))"
    if "\<bar>n\<bar> < 2 ^ 1024 - 2 ^ 970"
    using that by (simp add: clean_percentage_like_def float_of_int_def overflows_def)
  show "\<exists>r. clean_percentage_like (CStr s) = Inr r" by (rule clean_text_never_raises)
  show "clean_percentage_like (CStr s) = Inr None" if "list_all isspace s"
  proof -
    from that have "py_strip s = []"
      unfolding py_strip_def by (intro trim_blank) (simp add: list_all_iff)
    then show ?thesis by (simp add: clean_percentage_like_def py_str_def)
  qed
  show "clean_percentage_like (CStr s) = Inr None" if "py_lower (py_strip s) = ascii ''nan''"
    using that by (simp add: clean_percentage_like_def py_str_def)
  show "clean_percentage_like (CStr s) = Inr None"
    if "\<exists>e. py_float (py_strip (remove_char 44 (remove_char 37 (py_strip s)))) = Inl e"
  proof -
    from that obtain e where e: "py_float (py_strip (remove_char 44 (remove_char 37 (py_strip s)))) = Inl e"
      by blast
    with py_float_error [OF e] show ?thesis
      by (simp add: clean_percentage_like_def py_str_def Let_def invalid_float_def)
  qed
  show "clean_percentage_like (CStr (ws1 @ body @ pct @ ws2)) =
          Inr (Some (float_of_decimal False (digits_val (to_ascii (ip @ fp))) (- int (length fp))))"
    if "list_all isspace ws1 \<and> list_all isspace ws2 \<and> (pct = [] \<or> pct = [37])
        \<and> ip \<noteq> [] \<and> list_all (\<lambda>c. decimal_value c \<noteq> None) ip
        \<and> list_all (\<lambda>c. decimal_value c \<noteq> None) fp
        \<and> (frac = [] \<and> fp = [] \<or> frac = 46 # fp \<and> fp \<noteq> [])
        \<and> remove_char 44 body = ip @ frac"
    using that by (intro clean_decimal_text) simp_all
qed

lemma witness_texts:
  "list_all isspace (ascii ''  '')"
  "py_lower (py_strip (ascii '' NaN '')) = ascii ''nan''"
  "py_float (py_strip (remove_char 44 (remove_char 37 (py_strip (ascii ''n/a''))))) = Inl invalid_float"
  "list_all (\<lambda>c. decimal_value c \<noteq> None) (ascii ''63'')"
  "list_all (\<lambda>c. decimal_value c \<noteq> None) (ascii ''6'')"
  "remove_char 44 (ascii ''63.6'') = ascii ''63'' @ 46 # ascii ''6''"
  "float_of_decimal False (digits_val (to_ascii (ascii ''63'' @ ascii ''6''))) (- int (length (ascii ''6''))) =
     Fin False 636 (- 1)"
  "list_all (\<lambda>c. decimal_value c \<noteq> None) (ascii ''1234'')"
  "list_all (\<lambda>c. decimal_value c \<noteq> None) (ascii ''5'')"
  "remove_char 44 (ascii ''1,234.5'') = ascii ''1234'' @ 46 # ascii ''5''"
  "float_of_decimal False (digits_val (to_ascii (ascii ''1234'' @ ascii ''5''))) (- int (length (ascii ''5''))) =
     Fin False 12345 (- 1)"
  "float_of_decimal (2020 < (0::int)) (nat \<bar>2020\<bar>) 0 = Fin False 202 1"
  by (simp_all add: ev)

theorem value_cleaner_contract_witness:
  "clean_percentage_like (CFloat (Fin False 591 (- 1))) = Inr (Some (Fin False 591 (- 1)))
   \<and> clean_percentage_like (CInt 2020) = Inr (Some (Fin False 202 1))
   \<and> clean_percentage_like (CStr (ascii ''  '')) = Inr None
   \<and> clean_percentage_like (CStr (ascii '' NaN '')) = Inr None
   \<and> clean_percentage_like (CStr (ascii ''n/a'')) = Inr None
   \<and> clean_percentage_like (CStr ([] @ ascii ''63.6'' @ [37] @ [])) = Inr (Some (Fin False 636 (- 1)))
   \<and> clean_percentage_like (CStr ([32] @ ascii ''1,234.5'' @ [] @ [32])) = Inr (Some (Fin False 12345 (- 1)))"
proof -
  from value_cleaner_contract [where f = "Fin False 591 (- 1)"]
  have 1: "clean_percentage_like (CFloat (Fin False 591 (- 1))) = Inr (Some (Fin False 591 (- 1)))"
    by simp
  have "\<bar>2020::int\<bar> < 2 ^ 1024 - 2 ^ 970" by simp
  with value_cleaner_contract [where n = 2020] witness_texts(12)
  have 2: "clean_percentage_like (CInt 2020) = Inr (Some (Fin False 202 1))" by metis
  from value_cleaner_contract [where s = "ascii ''  ''"] witness_texts(1)
  have 3: "clean_percentage_like (CStr (ascii ''  '')) = Inr None" by blast
  from value_cleaner_contract [where s = "ascii '' NaN ''"] witness_texts(2)
  have 4: "clean_percentage_like (CStr (ascii '' NaN '')) = Inr None" by blast
  from value_cleaner_contract [where s = "ascii ''n/a''"] witness_texts(3)
  have 5: "clean_percentage_like (CStr (ascii ''n/a'')) = Inr None" by blast
  have "ascii ''63'' \<noteq> []" "ascii ''6'' \<noteq> []" "ascii ''1234'' \<noteq> []" "ascii ''5'' \<noteq> []"
    by (simp_all add: ascii_def)
  note ne = this
  from value_cleaner_contract [where ?ws1.0 = "[]" and ?ws2.0 = "[]" and pct = "[37]"
      and ip = "ascii ''63''" and fp = "ascii ''6''" and frac = "46 # ascii ''6''"
      and body = "ascii ''63.6''"] witness_texts(4-7) ne
  have 6: "clean_percentage_like (CStr ([] @ ascii ''63.6'' @ [37] @ [])) = Inr (Some (Fin False 636 (- 1)))"
    by simp
  have sp: "list_all isspace [32]" by (simp add: isspace_def space_points_def)
  from value_cleaner_contract [where ?ws1.0 = "[32]" and ?ws2.0 = "[32]" and pct = "[]"
      and ip = "ascii ''1234''" and fp = "ascii ''5''" and frac = "46 # ascii ''5''"
      and body = "ascii ''1,234.5''"] witness_texts(8-11) ne sp
  have 7: "clean_percentage_like (CStr ([32] @ ascii ''1,234.5'' @ [] @ [32])) =
      Inr (Some (Fin False 12345 (- 1)))"
    by simp
  from 1 2 3 4 5 6 7 show ?thesis by blast
qed

end
